theory Spec2Isabelle
  imports Main
begin

section \<open>Values shared by the modules\<close>

text \<open>
  \<^verbatim>\<open>lib/utils.js\<close>, \<^verbatim>\<open>error(code, message)\<close>: an \<^verbatim>\<open>Error\<close> object whose
  message is \<^verbatim>\<open>message || code\<close> and whose \<^verbatim>\<open>code\<close> property is set. Errors raised by
  the collaborators (resource adapter, patch applier) are \<^verbatim>\<open>Error\<close> objects too; theirs
  may carry no \<^verbatim>\<open>code\<close> at all, which is \<open>None\<close> here.
\<close>

record js_error =
  err_code :: "string option"
  err_message :: string

text \<open>
  A promise can be rejected with any value, and \<^verbatim>\<open>read\<close>, \<^verbatim>\<open>applyPatch\<close> and
  \<^verbatim>\<open>write\<close> belong to the caller. Reading the property \<^verbatim>\<open>code\<close> of
  \<^verbatim>\<open>undefined\<close> or of \<^verbatim>\<open>null\<close> throws a \<^verbatim>\<open>TypeError\<close>; on every other value
  the read succeeds, and yields \<^verbatim>\<open>undefined\<close> when the value has no such property. So
  a rejection reason is \<^verbatim>\<open>undefined\<close>, \<^verbatim>\<open>null\<close>, or a value whose \<^verbatim>\<open>code\<close> can
  be read. \<open>cannot_read\<close> is the \<^verbatim>\<open>TypeError\<close> of the failed property read.
\<close>

datatype reason = Undefined | Null | Object js_error

fun nullish :: "reason \<Rightarrow> bool" where
  "nullish Undefined = True"
| "nullish Null = True"
| "nullish (Object e) = False"

definition cannot_read :: js_error where
  "cannot_read = \<lparr>err_code = None, err_message = ''Cannot read properties (reading code)''\<rparr>"

definition error :: "string \<Rightarrow> string \<Rightarrow> js_error" where
  "error c m = \<lparr>err_code = Some c, err_message = (if m = [] then c else m)\<rparr>"

text \<open>
  A patch snapshot is a JavaScript object; the pipeline only tests it for existence and
  compares it with \<^verbatim>\<open>===\<close>, so it is represented by its identity. The caller-supplied
  \<^verbatim>\<open>applyPatch\<close> function is represented by its identity as well: what it returns
  arrives later, as the settlement of its promise.
\<close>

type_synonym snapshot = nat
type_synonym apply_fn = nat
type_synonym content = string

record response =
  content :: content

text \<open>
  The store's \<^verbatim>\<open>sessions\<close> value: an object indexed by tab id whose entries hold a
  \<^verbatim>\<open>Map\<close> named \<^verbatim>\<open>patches\<close> from resource URL to the snapshot of that resource.
\<close>

record session =
  patches :: "string \<rightharpoonup> snapshot"

type_synonym sessions = "nat \<rightharpoonup> session"

datatype action = Reset_resource_patches string nat

text \<open>
  Modelled from the spec: the reducer behind \<^verbatim>\<open>dispatch\<close> lives in \<^verbatim>\<open>app/store\<close>,
  which is not among the sources. The spec says of the reset action that it "clears
  consumed backlog" of the resource and is safe to call when no patches remain.
\<close>

fun reducer :: "action \<Rightarrow> sessions \<Rightarrow> sessions" where
  "reducer (Reset_resource_patches uri tab) st =
     (case st tab of
        None \<Rightarrow> st
      | Some se \<Rightarrow> st(tab \<mapsto> se\<lparr>patches := (patches se)(uri := None)\<rparr>))"

text \<open>
  \<^verbatim>\<open>getResourcePatches\<close>: \<^verbatim>\<open>session && session.patches.get(url) || null\<close>. A missing
  session and a missing map entry are both \<^verbatim>\<open>undefined\<close>, which \<^verbatim>\<open>|| null\<close> turns
  into \<^verbatim>\<open>null\<close>; a stored snapshot is an object, hence truthy, and is returned as it is.
\<close>

definition getResourcePatches :: "sessions \<Rightarrow> nat \<Rightarrow> string \<Rightarrow> snapshot option" where
  "getResourcePatches st tab url =
     (case st tab of
        None \<Rightarrow> None
      | Some session \<Rightarrow> (case patches session url of None \<Rightarrow> None | Some p \<Rightarrow> Some p))"

section \<open>Registry keys\<close>

fun string_of_nat :: "nat \<Rightarrow> string" where
  "string_of_nat n =
     (if n < 10 then [''0123456789'' ! n]
      else string_of_nat (n div 10) @ [''0123456789'' ! (n mod 10)])"

declare string_of_nat.simps [simp del]

definition getKey :: "nat \<Rightarrow> string \<Rightarrow> string" where
  "getKey tab url = string_of_nat tab @ ''+'' @ url"

section \<open>The state of the page\<close>

text \<open>
  One \<open>transaction\<close> per call of \<^verbatim>\<open>createTransaction\<close>: the variables the closure
  captures (\<^verbatim>\<open>tabId\<close>, \<^verbatim>\<open>resourceUrl\<close>) and the variables of the \<^verbatim>\<open>debounce\<close>
  closure around it. \<^verbatim>\<open>timestamp\<close> is \<^verbatim>\<open>undefined\<close> until the first call.
\<close>

record transaction =
  tabId :: nat
  resourceUrl :: string
  timeout :: "nat option"
  args :: "apply_fn option"
  timestamp :: "int option"

datatype callback = Later nat | Reject_on_timeout nat

record timer =
  t_id :: nat
  t_due :: int
  t_cb :: callback

text \<open>
  One \<open>run\<close> per call of the debounced function body: the promise chain it builds,
  the \<^verbatim>\<open>applyPatch\<close> argument and the \<^verbatim>\<open>snapshot\<close> variable it closes over. The stage
  names the promise the chain is suspended on; \<open>Settled\<close> is the chain whose last
  reaction (the completion recheck) has run, \<open>Unhandled\<close> the chain that has ended in a
  rejection which no reaction handles.
\<close>

datatype stage = Await_read | Await_race | Await_write | Settled | Unhandled

fun suspended :: "stage \<Rightarrow> bool" where
  "suspended Await_read = True"
| "suspended Await_race = True"
| "suspended Await_write = True"
| "suspended Settled = False"
| "suspended Unhandled = False"

record run =
  r_handle :: nat
  r_applyPatch :: "apply_fn option"
  r_snapshot :: "snapshot option"
  r_stage :: stage
  r_started :: int

datatype effect =
    Console_groupCollapsed
  | Devtools_getContent nat string
  | Console_info string
  | Apply_patch apply_fn content snapshot
  | Dispatch action
  | Devtools_update nat string content
  | Console_error js_error
  | Console_groupEnd

record state =
  transactions :: "string \<rightharpoonup> nat"
  handles :: "nat \<Rightarrow> transaction"
  next_handle :: nat
  timers :: "timer list"
  next_timer :: nat
  runs :: "run list"
  store :: sessions
  trace :: "(nat \<times> effect) list"

definition fresh :: transaction where
  "fresh = \<lparr>tabId = 0, resourceUrl = [], timeout = None, args = None, timestamp = None\<rparr>"

definition init :: state where
  "init = \<lparr>transactions = Map.empty, handles = (\<lambda>_. fresh), next_handle = 0, timers = [],
            next_timer = 0, runs = [], store = Map.empty, trace = []\<rparr>"

definition emit :: "nat \<Rightarrow> effect \<Rightarrow> state \<Rightarrow> state" where
  "emit r e s = s\<lparr>trace := trace s @ [(r, e)]\<rparr>"

definition upd_handle :: "nat \<Rightarrow> (transaction \<Rightarrow> transaction) \<Rightarrow> state \<Rightarrow> state" where
  "upd_handle h f s = s\<lparr>handles := (handles s)(h := f (handles s h))\<rparr>"

definition upd_run :: "nat \<Rightarrow> (run \<Rightarrow> run) \<Rightarrow> state \<Rightarrow> state" where
  "upd_run r f s = s\<lparr>runs := (runs s)[r := f (runs s ! r)]\<rparr>"

definition setTimeout :: "callback \<Rightarrow> int \<Rightarrow> int \<Rightarrow> state \<Rightarrow> nat \<times> state" where
  "setTimeout cb delay now s =
     (next_timer s,
      s\<lparr>timers := timers s @ [\<lparr>t_id = next_timer s, t_due = now + delay, t_cb = cb\<rparr>],
        next_timer := Suc (next_timer s)\<rparr>)"

definition dispatch :: "nat \<Rightarrow> action \<Rightarrow> state \<Rightarrow> state" where
  "dispatch r a s = (emit r (Dispatch a) s)\<lparr>store := reducer a (store s)\<rparr>"

section \<open>The debounce primitive\<close>

text \<open>
  \<^verbatim>\<open>lib/utils.js\<close>, \<^verbatim>\<open>debounce(func, wait, immediate)\<close>. The closure's variables
  are the fields \<open>timeout\<close>, \<open>args\<close> and \<open>timestamp\<close> of the transaction; \<open>func\<close> is
  passed as the function that starts a run. \<open>now\<close> is what \<^verbatim>\<open>Date.now()\<close> returns.

  \<open>later\<close> is the timer callback: when the last call is less than \<open>wait\<close> old it sets
  a new timer for the remainder, otherwise it clears \<open>timeout\<close>, calls \<open>func\<close> with
  the stored arguments and forgets them. With \<^verbatim>\<open>timestamp\<close> still undefined the
  difference is \<^verbatim>\<open>NaN\<close> and both comparisons are false.
\<close>

definition later ::
  "(int \<Rightarrow> nat \<Rightarrow> apply_fn option \<Rightarrow> state \<Rightarrow> state) \<Rightarrow> int \<Rightarrow> bool \<Rightarrow> int \<Rightarrow> nat \<Rightarrow> state \<Rightarrow> state"
where
  "later func wait immediate now h s =
     (let last = map_option (\<lambda>ts. now - ts) (timestamp (handles s h)) in
      if (case last of None \<Rightarrow> False | Some l \<Rightarrow> l < wait \<and> l \<ge> 0) then
        (let (tid, s1) = setTimeout (Later h) (wait - the last) now s
         in upd_handle h (\<lambda>t. t\<lparr>timeout := Some tid\<rparr>) s1)
      else
        (let s1 = upd_handle h (\<lambda>t. t\<lparr>timeout := None\<rparr>) s in
         if \<not> immediate then
           (let s2 = func now h (args (handles s1 h)) s1 in
            if timeout (handles s2 h) = None
            then upd_handle h (\<lambda>t. t\<lparr>args := None\<rparr>) s2 else s2)
         else s1))"

text \<open>The function \<^verbatim>\<open>debounce\<close> returns: what a call of the handle does.\<close>

definition debounced ::
  "(int \<Rightarrow> nat \<Rightarrow> apply_fn option \<Rightarrow> state \<Rightarrow> state) \<Rightarrow> int \<Rightarrow> bool \<Rightarrow> int \<Rightarrow> nat \<Rightarrow> apply_fn option
     \<Rightarrow> state \<Rightarrow> state"
where
  "debounced func wait immediate now h a s =
     (let s1 = upd_handle h (\<lambda>t. t\<lparr>args := a, timestamp := Some now\<rparr>) s;
          callNow = (immediate \<and> timeout (handles s1 h) = None);
          s2 = (if timeout (handles s1 h) = None then
                  (let (tid, s') = setTimeout (Later h) wait now s1
                   in upd_handle h (\<lambda>t. t\<lparr>timeout := Some tid\<rparr>) s')
                else s1)
      in if callNow then
           upd_handle h (\<lambda>t. t\<lparr>args := None\<rparr>) (func now h (args (handles s2 h)) s2)
         else s2)"

section \<open>Promise chains\<close>

text \<open>
  A promise at the moment a reaction looks at it: still pending, fulfilled with a value,
  or rejected with a reason. \<open>then_p\<close> and \<open>catch_p\<close> are \<^verbatim>\<open>.then(f)\<close> and
  \<^verbatim>\<open>.catch(h)\<close>: the callback runs on a fulfilled (rejected) promise and its result is
  the new promise; the other settlement passes through; a pending promise leaves the
  rest of the chain waiting. Reactions run as microtasks, and every settlement is
  delivered in a task of its own, so a chain runs from one settlement to its next
  pending promise without any other event in between.
\<close>

datatype 'a settle = Pending | Fulfilled 'a | Rejected reason

fun then_p :: "'a settle \<times> state \<Rightarrow> ('a \<Rightarrow> state \<Rightarrow> 'b settle \<times> state) \<Rightarrow> 'b settle \<times> state" where
  "then_p (Fulfilled v, s) f = f v s"
| "then_p (Rejected e, s) f = (Rejected e, s)"
| "then_p (Pending, s) f = (Pending, s)"

fun catch_p :: "'a settle \<times> state \<Rightarrow> (reason \<Rightarrow> state \<Rightarrow> 'a settle \<times> state) \<Rightarrow> 'a settle \<times> state" where
  "catch_p (Rejected e, s) h = h e s"
| "catch_p (Fulfilled v, s) h = (Fulfilled v, s)"
| "catch_p (Pending, s) h = (Pending, s)"

fun settled :: "reason + 'a \<Rightarrow> 'a settle" where
  "settled (Inl e) = Rejected e"
| "settled (Inr v) = Fulfilled v"

section \<open>The update transaction\<close>

definition updateDebounce :: int where
  "updateDebounce = 1000"

definition cancel :: "state \<Rightarrow> 'a settle \<times> state" where
  "cancel s = (Rejected (Object (error ''ECANCEL'' ''Transaction was cancelled'')), s)"

text \<open>
  \<^verbatim>\<open>rejectOnTimeout(timeout)\<close>: a promise that a timer rejects with \<^verbatim>\<open>ETIMEOUT\<close>.
  The timer is never cleared.
\<close>

definition rejectOnTimeout :: "nat \<Rightarrow> int \<Rightarrow> int \<Rightarrow> state \<Rightarrow> state" where
  "rejectOnTimeout r tmo now s = snd (setTimeout (Reject_on_timeout r) tmo now s)"

definition timeout_error :: js_error where
  "timeout_error = error ''ETIMEOUT'' ''Timeout''"

text \<open>Calling \<^verbatim>\<open>applyPatch\<close> when the debounced function was given no argument.\<close>

definition type_error :: js_error where
  "type_error = \<lparr>err_code = None, err_message = ''applyPatch is not a function''\<rparr>"

text \<open>
  The body of the debounced function up to the first suspension: it opens the console
  group and asks the resource adapter for the content.
\<close>

definition func :: "int \<Rightarrow> nat \<Rightarrow> apply_fn option \<Rightarrow> state \<Rightarrow> state" where
  "func now h applyPatch s =
     (let r = length (runs s);
          s1 = s\<lparr>runs := runs s @ [\<lparr>r_handle = h, r_applyPatch = applyPatch, r_snapshot = None,
                                     r_stage = Await_read, r_started = now\<rparr>]\<rparr>
      in emit r (Devtools_getContent (tabId (handles s h)) (resourceUrl (handles s h)))
           (emit r Console_groupCollapsed s1))"

definition transaction_call :: "int \<Rightarrow> nat \<Rightarrow> apply_fn option \<Rightarrow> state \<Rightarrow> state" where
  "transaction_call = debounced func updateDebounce False"

text \<open>
  The four reactions of the chain, in the order of the source: the content is there;
  the race between \<^verbatim>\<open>applyPatch\<close> and the timeout is won by a response; an error
  reached \<^verbatim>\<open>.catch\<close>; the completion recheck.
\<close>

definition on_content :: "int \<Rightarrow> nat \<Rightarrow> content \<Rightarrow> state \<Rightarrow> response settle \<times> state" where
  "on_content now r c s =
     (let t = handles s (r_handle (runs s ! r));
          snapshot = getResourcePatches (store s) (tabId t) (resourceUrl t);
          s1 = upd_run r (\<lambda>x. x\<lparr>r_snapshot := snapshot\<rparr>) s
      in case snapshot of
           None \<Rightarrow> cancel (emit r (Console_info ''No patches for resource, abort'') s1)
         | Some sn \<Rightarrow>
             (case r_applyPatch (runs s1 ! r) of
                None \<Rightarrow> (Rejected (Object type_error), s1)
              | Some f \<Rightarrow>
                  (Pending,
                   upd_run r (\<lambda>x. x\<lparr>r_stage := Await_race\<rparr>)
                     (rejectOnTimeout r 10000 now (emit r (Apply_patch f c sn) s1)))))"

definition on_response :: "int \<Rightarrow> nat \<Rightarrow> response \<Rightarrow> state \<Rightarrow> unit settle \<times> state" where
  "on_response now r resp s =
     (let s1 = emit r (Console_info ''Resource patched, try to update content'') s;
          t = handles s1 (r_handle (runs s1 ! r));
          curSnapshot = getResourcePatches (store s1) (tabId t) (resourceUrl t)
      in case curSnapshot of
           None \<Rightarrow>
             cancel (emit r (Console_info ''Session destroyed when patching resource, abort'') s1)
         | Some cur \<Rightarrow>
             if r_snapshot (runs s1 ! r) = Some cur then
               (Pending,
                upd_run r (\<lambda>x. x\<lparr>r_stage := Await_write\<rparr>)
                  (emit r (Devtools_update (tabId t) (resourceUrl t) (content resp))
                     (dispatch r (Reset_resource_patches (resourceUrl t) (tabId t)) s1)))
             else (Fulfilled (), s1))"

text \<open>
  The reaction of \<^verbatim>\<open>.catch\<close>. It begins by reading \<^verbatim>\<open>err.code\<close>, with no test
  of \<^verbatim>\<open>err\<close> before: when the reason is \<^verbatim>\<open>undefined\<close> or \<^verbatim>\<open>null\<close> the read
  throws, nothing is logged, and the promise that \<^verbatim>\<open>.catch\<close> returns is rejected with
  the \<^verbatim>\<open>TypeError\<close>. The last \<^verbatim>\<open>.then\<close> has no rejection handler, so the chain
  ends there.
\<close>

definition on_error :: "nat \<Rightarrow> reason \<Rightarrow> state \<Rightarrow> unit settle \<times> state" where
  "on_error r err s =
     (case err of
        Object e \<Rightarrow>
          if err_code e \<noteq> Some ''ECANCEL'' then (Fulfilled (), emit r (Console_error e) s)
          else (Fulfilled (), s)
      | _ \<Rightarrow> (Rejected (Object cannot_read), upd_run r (\<lambda>x. x\<lparr>r_stage := Unhandled\<rparr>) s))"

definition on_complete :: "int \<Rightarrow> nat \<Rightarrow> unit \<Rightarrow> state \<Rightarrow> unit settle \<times> state" where
  "on_complete now r u s =
     (let s1 = emit r Console_groupEnd
                 (upd_run r (\<lambda>x. x\<lparr>r_snapshot := None, r_stage := Settled\<rparr>) s);
          t = handles s1 (r_handle (runs s1 ! r));
          patches = getResourcePatches (store s1) (tabId t) (resourceUrl t)
      in case patches of
           Some p \<Rightarrow>
             (Fulfilled (),
              transaction_call now (r_handle (runs s1 ! r)) (r_applyPatch (runs s1 ! r))
                (emit r (Console_info ''Pending patches, restart transaction for'') s1))
         | None \<Rightarrow>
             (Fulfilled (),
              s1\<lparr>transactions := (transactions s1)(getKey (tabId t) (resourceUrl t) := None)\<rparr>))"

text \<open>
  The chain \<^verbatim>\<open>getContent(..).then(..).then(..).catch(..).then(..)\<close>, resumed at the
  promise that has just settled: the read, the race, or the write.
\<close>

definition resume_read :: "int \<Rightarrow> nat \<Rightarrow> content settle \<Rightarrow> state \<Rightarrow> unit settle \<times> state" where
  "resume_read now r p s =
     then_p (catch_p (then_p (then_p (p, s) (on_content now r)) (on_response now r)) (on_error r))
       (on_complete now r)"

definition resume_race :: "int \<Rightarrow> nat \<Rightarrow> response settle \<Rightarrow> state \<Rightarrow> unit settle \<times> state" where
  "resume_race now r p s =
     then_p (catch_p (then_p (p, s) (on_response now r)) (on_error r)) (on_complete now r)"

definition resume_write :: "int \<Rightarrow> nat \<Rightarrow> unit settle \<Rightarrow> state \<Rightarrow> unit settle \<times> state" where
  "resume_write now r p s = then_p (catch_p (p, s) (on_error r)) (on_complete now r)"

section \<open>The registry and the entry point\<close>

definition createTransaction :: "nat \<Rightarrow> string \<Rightarrow> state \<Rightarrow> state" where
  "createTransaction tab url s =
     s\<lparr>handles := (handles s)(next_handle s :=
          \<lparr>tabId = tab, resourceUrl = url, timeout = None, args = None, timestamp = None\<rparr>),
       next_handle := Suc (next_handle s),
       transactions := (transactions s)(getKey tab url \<mapsto> next_handle s)\<rparr>"

text \<open>The module's default export, \<^verbatim>\<open>requestUpdateTransaction\<close> in the spec.\<close>

definition requestUpdateTransaction :: "int \<Rightarrow> nat \<Rightarrow> string \<Rightarrow> apply_fn \<Rightarrow> state \<Rightarrow> state" where
  "requestUpdateTransaction now tab url applyPatch s =
     (let key = getKey tab url;
          s1 = (if transactions s key = None then createTransaction tab url s else s)
      in case transactions s1 key of
           Some h \<Rightarrow> transaction_call now h (Some applyPatch) s1
         | None \<Rightarrow> s1)"

section \<open>Events\<close>

text \<open>
  What the event loop delivers, each with the time at which it runs: a call of the entry
  point; a timer callback (never before the timer is due); the settlement of the read,
  of \<^verbatim>\<open>applyPatch\<close>, or of the write of a run; and a change of the store by the
  producers of patches. A settlement reaches the chain only while the chain waits for
  it: \<^verbatim>\<open>Promise.race\<close> has settled once its first input has, and ignores the other.
\<close>

datatype event =
    Request nat string apply_fn
  | Fire nat
  | Read_settled nat "reason + content"
  | Apply_settled nat "reason + response"
  | Write_settled nat "reason + unit"
  | Store_changed nat "session option"

definition waiting :: "state \<Rightarrow> nat \<Rightarrow> stage \<Rightarrow> bool" where
  "waiting s r st = (r < length (runs s) \<and> r_stage (runs s ! r) = st)"

definition fire :: "int \<Rightarrow> timer \<Rightarrow> state \<Rightarrow> state" where
  "fire now tm s =
     (let s1 = s\<lparr>timers := remove1 tm (timers s)\<rparr> in
      case t_cb tm of
        Later h \<Rightarrow> later func updateDebounce False now h s1
      | Reject_on_timeout r \<Rightarrow>
          if waiting s1 r Await_race then snd (resume_race now r (Rejected (Object timeout_error)) s1)
          else s1)"

fun step :: "state \<Rightarrow> int \<times> event \<Rightarrow> state" where
  "step s (now, Request tab url applyPatch) = requestUpdateTransaction now tab url applyPatch s"
| "step s (now, Fire tid) =
     (case find (\<lambda>tm. t_id tm = tid) (timers s) of
        None \<Rightarrow> s
      | Some tm \<Rightarrow> if t_due tm \<le> now then fire now tm s else s)"
| "step s (now, Read_settled r p) =
     (if waiting s r Await_read then snd (resume_read now r (settled p) s) else s)"
| "step s (now, Apply_settled r p) =
     (if waiting s r Await_race then snd (resume_race now r (settled p) s) else s)"
| "step s (now, Write_settled r p) =
     (if waiting s r Await_write then snd (resume_write now r (settled p) s) else s)"
| "step s (now, Store_changed tab se) = s\<lparr>store := (store s)(tab := se)\<rparr>"

definition exec :: "state \<Rightarrow> (int \<times> event) list \<Rightarrow> state" where
  "exec = foldl step"

section \<open>Observations\<close>

text \<open>What one run has written to the console and asked of its collaborators, in order.\<close>

definition run_effects :: "state \<Rightarrow> nat \<Rightarrow> effect list" where
  "run_effects s r = map snd (filter (\<lambda>x. fst x = r) (trace s))"

text \<open>The two effects of the commit: the reset of the backlog and the write.\<close>

fun is_commit :: "effect \<Rightarrow> bool" where
  "is_commit (Dispatch a) = True"
| "is_commit (Devtools_update tab url c) = True"
| "is_commit e = False"

fun is_error :: "effect \<Rightarrow> bool" where
  "is_error (Console_error e) = True"
| "is_error e = False"

text \<open>
  The \<^verbatim>\<open>tabId\<close> and \<^verbatim>\<open>resourceUrl\<close> a run closes over, and what
  \<^verbatim>\<open>getResourcePatches(tabId, resourceUrl)\<close> returns to it in a given state.
\<close>

definition run_tab :: "state \<Rightarrow> nat \<Rightarrow> nat" where
  "run_tab s r = tabId (handles s (r_handle (runs s ! r)))"

definition run_url :: "state \<Rightarrow> nat \<Rightarrow> string" where
  "run_url s r = resourceUrl (handles s (r_handle (runs s ! r)))"

definition pending_patches :: "state \<Rightarrow> nat \<Rightarrow> snapshot option" where
  "pending_patches s r = getResourcePatches (store s) (run_tab s r) (run_url s r)"

text \<open>
  Two ways a step can change the trace and the runs: it moves the chain of one run \<open>r\<close>
  forward (all new effects are that run's, and a run still short of the commit has only
  added effects that are neither a commit nor an error), or it starts a new run.
\<close>

definition advances :: "state \<Rightarrow> nat \<Rightarrow> state \<Rightarrow> bool" where
  "advances s r s' \<longleftrightarrow>
     (\<exists>v. trace s' = trace s @ v \<and> (\<forall>x\<in>set v. fst x = r)
        \<and> (r_stage (runs s' ! r) \<in> {Await_read, Await_race} \<longrightarrow>
             r_stage (runs s ! r) = Await_read
             \<and> (\<forall>x\<in>set v. \<not> is_commit (snd x) \<and> \<not> is_error (snd x))))
     \<and> length (runs s') = length (runs s)
     \<and> (\<forall>r'. r' \<noteq> r \<longrightarrow> runs s' ! r' = runs s ! r')
     \<and> r_handle (runs s' ! r) = r_handle (runs s ! r)"

definition starts :: "state \<Rightarrow> state \<Rightarrow> bool" where
  "starts s s' \<longleftrightarrow>
     (\<exists>x v. runs s' = runs s @ [x] \<and> r_stage x = Await_read \<and> trace s' = trace s @ v
        \<and> (\<forall>y\<in>set v. fst y = length (runs s) \<and> \<not> is_commit (snd y) \<and> \<not> is_error (snd y)))"

text \<open>
  The invariant of the trace: a run that does not exist yet has no effects, and a run
  that waits for the read or for the race has neither committed nor logged an error.
\<close>

definition unspoilt :: "state \<Rightarrow> bool" where
  "unspoilt s \<longleftrightarrow>
     (\<forall>r. (length (runs s) \<le> r \<longrightarrow> run_effects s r = [])
        \<and> (r < length (runs s) \<longrightarrow> r_stage (runs s ! r) \<in> {Await_read, Await_race} \<longrightarrow>
             (\<forall>e\<in>set (run_effects s r). \<not> is_commit e \<and> \<not> is_error e)))"

section \<open>Scenarios\<close>

text \<open>
  Tab 1 has a session with patches pending for \<^verbatim>\<open>a.css\<close>. One request; the timer
  fires after the quiet period (\<open>reading\<close>); the read succeeds and \<^verbatim>\<open>applyPatch\<close>
  is called (\<open>applying\<close>); it succeeds, the run dispatches the reset and waits for the
  write (\<open>committing\<close>). In \<open>no_session\<close> there is no session at all; in \<open>edited\<close>
  the producer replaces the snapshot while \<^verbatim>\<open>applyPatch\<close> runs.
\<close>

definition demo_session :: session where
  "demo_session = \<lparr>patches = [''a.css'' \<mapsto> 7]\<rparr>"

definition newer_session :: session where
  "newer_session = \<lparr>patches = [''a.css'' \<mapsto> 8]\<rparr>"

definition disk_full :: js_error where
  "disk_full = \<lparr>err_code = None, err_message = ''disk full''\<rparr>"

definition reading :: "(int \<times> event) list" where
  "reading =
     [(0, Store_changed 1 (Some demo_session)), (0, Request 1 ''a.css'' 5), (1000, Fire 0)]"

definition applying :: "(int \<times> event) list" where
  "applying = reading @ [(1200, Read_settled 0 (Inr ''body{}''))]"

definition committing :: "(int \<times> event) list" where
  "committing = applying @ [(1300, Apply_settled 0 (Inr \<lparr>content = ''x''\<rparr>))]"

definition edited :: "(int \<times> event) list" where
  "edited = applying @ [(1250, Store_changed 1 (Some newer_session))]"

definition no_session :: "(int \<times> event) list" where
  "no_session = [(0, Request 1 ''a.css'' 5), (1000, Fire 0)]"

definition race_timer :: timer where
  "race_timer = \<lparr>t_id = 1, t_due = 11200, t_cb = Reject_on_timeout 0\<rparr>"

text \<open>
  The scenario \<open>applying\<close>, continued: the timeout of the race is due at 11200, but the
  event loop is busy and runs the timer callback only at 11300; \<^verbatim>\<open>applyPatch\<close> answers
  in between, at 11250.
\<close>

definition late_answer :: "(int \<times> event) list" where
  "late_answer =
     applying @ [(11250, Apply_settled 0 (Inr \<lparr>content = ''x''\<rparr>)), (11300, Fire 1)]"

section \<open>Bursts of requests\<close>




text \<open>
  The key is quiet when it has no handle in the registry, no run is suspended on a
  promise and the only timers left are timeouts of finished races (they are never
  cleared).
\<close>

definition is_reject :: "timer \<Rightarrow> bool" where
  "is_reject tm = (case t_cb tm of Later h \<Rightarrow> False | Reject_on_timeout r \<Rightarrow> True)"



definition armed :: "nat \<Rightarrow> string \<Rightarrow> run list \<Rightarrow> nat \<Rightarrow> apply_fn \<Rightarrow> int \<Rightarrow> state \<Rightarrow> bool" where
  "armed tab url rs h f t s \<longleftrightarrow>
     runs s = rs \<and> transactions s (getKey tab url) = Some h
     \<and> (\<exists>tm. filter (\<lambda>x. \<not> is_reject x) (timers s) = [tm] \<and> t_cb tm = Later h)
     \<and> timeout (handles s h) \<noteq> None
     \<and> args (handles s h) = Some f \<and> timestamp (handles s h) = Some t"


text \<open>
  The scenario \<open>committing\<close>, continued: the write fails, the key is deleted. Then a
  burst of three requests, with the timer callbacks that run in between.
\<close>

definition after_failure :: "(int \<times> event) list" where
  "after_failure = committing @ [(1400, Write_settled 0 (Inl (Object disk_full)))]"

definition second_burst :: "(int \<times> event) list" where
  "second_burst =
     [(2000, Request 1 ''a.css'' 5), (2400, Request 1 ''a.css'' 6), (3000, Fire 2),
      (3399, Request 1 ''a.css'' 9), (3400, Fire 3), (4399, Fire 4)]"

text \<open>
  Two bursts that do not begin in a quiet state. In \<open>two_handles\<close> the request of 1100
  arrives while the first run is reading; the run then finds no patches and deletes the
  key, so the request of 1500, 400 later, creates a second handle. In \<open>superseded\<close> the
  request of 1500 arrives while the first run waits for \<^verbatim>\<open>applyPatch\<close>; the snapshot
  changes, and the recheck of the first run calls the handle again with its own argument.
\<close>

definition two_handles :: "(int \<times> event) list" where
  "two_handles =
     reading @ [(1100, Request 1 ''a.css'' 6), (1150, Store_changed 1 None),
                (1200, Read_settled 0 (Inr ''body{}'')), (1500, Request 1 ''a.css'' 7),
                (2100, Fire 1), (2500, Fire 2)]"

definition superseded :: "(int \<times> event) list" where
  "superseded =
     applying @ [(1500, Request 1 ''a.css'' 6), (1600, Store_changed 1 (Some newer_session)),
                 (1700, Apply_settled 0 (Inr \<lparr>content = ''x''\<rparr>)),
                 (2500, Fire 2), (2700, Fire 3)]"

section \<open>Timers and runs of a handle\<close>

text \<open>
  The debounce timers of a handle that are set and have not fired, and the number of
  runs for a key whose chain has not reached its end.
\<close>

definition debounce_timers :: "state \<Rightarrow> nat \<Rightarrow> timer list" where
  "debounce_timers s h = filter (\<lambda>tm. t_cb tm = Later h) (timers s)"

definition in_flight :: "state \<Rightarrow> nat \<Rightarrow> string \<Rightarrow> nat" where
  "in_flight s tab url =
     length (filter (\<lambda>x. suspended (r_stage x) \<and> tabId (handles s (r_handle x)) = tab
                          \<and> resourceUrl (handles s (r_handle x)) = url) (runs s))"

text \<open>
  The invariant of the timers: a handle has one debounce timer in the queue when its
  \<^verbatim>\<open>timeout\<close> variable is set and none when it is null; handles not created yet
  have no timer; the registry and the runs name created handles only.
\<close>

definition well_timed :: "state \<Rightarrow> bool" where
  "well_timed s \<longleftrightarrow>
     (\<forall>h. length (debounce_timers s h) = (if timeout (handles s h) = None then 0 else 1))
     \<and> (\<forall>h. next_handle s \<le> h \<longrightarrow> timeout (handles s h) = None)
     \<and> (\<forall>k h. transactions s k = Some h \<longrightarrow> h < next_handle s)
     \<and> (\<forall>r. r < length (runs s) \<longrightarrow> r_handle (runs s ! r) < next_handle s)"

text \<open>
  A second request arrives while the first run is reading: it sets a new timer, and the
  run that timer starts overlaps the first one.
\<close>

definition overlapping :: "(int \<times> event) list" where
  "overlapping =
     reading @ [(1100, Request 1 ''a.css'' 6), (1200, Read_settled 0 (Inr ''body{}'')),
                (2100, Fire 1), (2200, Read_settled 1 (Inr ''body{}''))]"

definition requested :: "(int \<times> event) list" where
  "requested = [(0, Request 1 ''a.css'' 5)]"

section \<open>The delay after a restart\<close>

text \<open>
  \<open>keeps\<close>: a part of a step that creates no handle and no run and leaves every
  \<^verbatim>\<open>timestamp\<close> as it is or sets it to the present time. \<open>debounced_since\<close>: the
  handle \<open>h\<close> was last called at or after \<open>t0\<close> (and not after the present time
  \<open>lb\<close>), and its runs from number \<open>n\<close> on started a quiet period after \<open>t0\<close> or later.
\<close>

definition keeps :: "int \<Rightarrow> state \<Rightarrow> state \<Rightarrow> bool" where
  "keeps now s s' \<longleftrightarrow>
     next_handle s' = next_handle s
     \<and> map r_handle (runs s') = map r_handle (runs s)
     \<and> map r_started (runs s') = map r_started (runs s)
     \<and> (\<forall>h. timestamp (handles s' h) = timestamp (handles s h)
            \<or> timestamp (handles s' h) = Some now)"

definition debounced_since :: "int \<Rightarrow> nat \<Rightarrow> nat \<Rightarrow> int \<Rightarrow> state \<Rightarrow> bool" where
  "debounced_since t0 h n lb s \<longleftrightarrow>
     h < next_handle s
     \<and> (\<exists>ts. timestamp (handles s h) = Some ts \<and> t0 \<le> ts \<and> ts \<le> lb)
     \<and> (\<forall>i. n \<le> i \<and> i < length (runs s) \<and> r_handle (runs s ! i) = h \<longrightarrow>
            t0 + updateDebounce \<le> r_started (runs s ! i))"

text \<open>
  The scenario \<open>edited\<close>, continued: \<^verbatim>\<open>applyPatch\<close> answers at 1300, the snapshot has
  changed, and the recheck restarts the transaction. \<open>rechecking\<close> is the state in which
  the recheck runs.
\<close>

definition restarting :: "(int \<times> event) list" where
  "restarting = edited @ [(1300, Apply_settled 0 (Inr \<lparr>content = ''x''\<rparr>))]"

definition rechecking :: state where
  "rechecking = emit 0 (Console_info ''Resource patched, try to update content'') (exec init edited)"

section \<open>Basic facts\<close>

lemmas model_defs = exec_def init_def requestUpdateTransaction_def createTransaction_def
  transaction_call_def debounced_def later_def func_def fire_def waiting_def
  resume_read_def resume_race_def resume_write_def on_content_def on_response_def on_error_def
  on_complete_def cancel_def rejectOnTimeout_def setTimeout_def dispatch_def emit_def
  upd_handle_def upd_run_def getResourcePatches_def getKey_def string_of_nat.simps
  updateDebounce_def timeout_error_def type_error_def cannot_read_def error_def Let_def split_def

lemmas scenario_defs = reading_def applying_def committing_def edited_def no_session_def
  demo_session_def newer_session_def disk_full_def race_timer_def overlapping_def requested_def
  restarting_def rechecking_def after_failure_def second_burst_def late_answer_def
  two_handles_def superseded_def

lemmas run_defs = pending_patches_def run_tab_def run_url_def

lemma exec_Cons [simp]: "exec s (e # es) = exec (step s e) es"
  by (simp add: exec_def)

lemma exec_Nil [simp]: "exec s [] = s"
  by (simp add: exec_def)

lemma emit_sel [simp]:
  "trace (emit r e s) = trace s @ [(r, e)]"
  "runs (emit r e s) = runs s"
  "handles (emit r e s) = handles s"
  "timers (emit r e s) = timers s"
  "store (emit r e s) = store s"
  "transactions (emit r e s) = transactions s"
  "next_timer (emit r e s) = next_timer s"
  "next_handle (emit r e s) = next_handle s"
  by (simp_all add: emit_def)

lemma upd_run_sel [simp]:
  "trace (upd_run r f s) = trace s"
  "runs (upd_run r f s) = (runs s)[r := f (runs s ! r)]"
  "handles (upd_run r f s) = handles s"
  "timers (upd_run r f s) = timers s"
  "store (upd_run r f s) = store s"
  "transactions (upd_run r f s) = transactions s"
  "next_timer (upd_run r f s) = next_timer s"
  "next_handle (upd_run r f s) = next_handle s"
  by (simp_all add: upd_run_def)

lemma upd_handle_sel [simp]:
  "trace (upd_handle h f s) = trace s"
  "runs (upd_handle h f s) = runs s"
  "handles (upd_handle h f s) = (handles s)(h := f (handles s h))"
  "timers (upd_handle h f s) = timers s"
  "store (upd_handle h f s) = store s"
  "transactions (upd_handle h f s) = transactions s"
  "next_timer (upd_handle h f s) = next_timer s"
  "next_handle (upd_handle h f s) = next_handle s"
  by (simp_all add: upd_handle_def)

lemma setTimeout_sel [simp]:
  "fst (setTimeout cb d now s) = next_timer s"
  "trace (snd (setTimeout cb d now s)) = trace s"
  "runs (snd (setTimeout cb d now s)) = runs s"
  "handles (snd (setTimeout cb d now s)) = handles s"
  "timers (snd (setTimeout cb d now s)) = timers s @ [\<lparr>t_id = next_timer s, t_due = now + d, t_cb = cb\<rparr>]"
  "store (snd (setTimeout cb d now s)) = store s"
  "transactions (snd (setTimeout cb d now s)) = transactions s"
  "next_timer (snd (setTimeout cb d now s)) = Suc (next_timer s)"
  "next_handle (snd (setTimeout cb d now s)) = next_handle s"
  by (simp_all add: setTimeout_def)

lemma dispatch_sel [simp]:
  "trace (dispatch r a s) = trace s @ [(r, Dispatch a)]"
  "runs (dispatch r a s) = runs s"
  "handles (dispatch r a s) = handles s"
  "timers (dispatch r a s) = timers s"
  "store (dispatch r a s) = reducer a (store s)"
  "transactions (dispatch r a s) = transactions s"
  "next_timer (dispatch r a s) = next_timer s"
  "next_handle (dispatch r a s) = next_handle s"
  by (simp_all add: dispatch_def)

lemma transaction_call_sel [simp]:
  "trace (transaction_call now h a s) = trace s"
  "runs (transaction_call now h a s) = runs s"
  "store (transaction_call now h a s) = store s"
  "transactions (transaction_call now h a s) = transactions s"
  "next_handle (transaction_call now h a s) = next_handle s"
  by (simp_all add: transaction_call_def debounced_def Let_def split_def)

lemma transaction_call_handles:
  "handles (transaction_call now h a s) =
     (handles s)(h := (handles s h)\<lparr>args := a, timestamp := Some now,
        timeout := (case timeout (handles s h) of None \<Rightarrow> Some (next_timer s) | Some t \<Rightarrow> Some t)\<rparr>)"
  by (auto simp add: transaction_call_def debounced_def Let_def split_def fun_eq_iff split: option.splits)

lemma transaction_call_timers:
  "timers (transaction_call now h a s) =
     (case timeout (handles s h) of
        None \<Rightarrow> timers s @ [\<lparr>t_id = next_timer s, t_due = now + updateDebounce, t_cb = Later h\<rparr>]
      | Some t \<Rightarrow> timers s)"
  by (auto simp add: transaction_call_def debounced_def Let_def split_def split: option.splits)

lemma on_complete_fst [simp]: "fst (on_complete now r u s) = Fulfilled ()"
  by (simp add: on_complete_def Let_def split: option.splits)

lemma on_error_fst [simp]: "fst (on_error r (Object e) s) = Fulfilled ()"
  by (simp add: on_error_def)

lemma on_error_nullish:
  "nullish e \<Longrightarrow>
   on_error r e s = (Rejected (Object cannot_read), upd_run r (\<lambda>x. x\<lparr>r_stage := Unhandled\<rparr>) s)"
  by (cases e) (simp_all add: on_error_def)

lemma on_complete_runs [simp]:
  "runs (snd (on_complete now r u s)) = (runs s)[r := (runs s ! r)\<lparr>r_snapshot := None, r_stage := Settled\<rparr>]"
  by (simp add: on_complete_def Let_def split: option.splits)

lemma on_complete_store [simp]:
  "store (snd (on_complete now r u s)) = store s"
  by (simp add: on_complete_def Let_def split: option.splits)

lemma on_complete_next_handle [simp]:
  "next_handle (snd (on_complete now r u s)) = next_handle s"
  by (simp add: on_complete_def Let_def split: option.splits)

lemma on_complete_trace:
  "r < length (runs s) \<Longrightarrow> trace (snd (on_complete now r u s)) = trace s @ (r, Console_groupEnd) #
     (case getResourcePatches (store s) (tabId (handles s (r_handle (runs s ! r)))) (resourceUrl (handles s (r_handle (runs s ! r)))) of
        None \<Rightarrow> [] | Some p \<Rightarrow> [(r, Console_info ''Pending patches, restart transaction for'')])"
  by (simp add: on_complete_def Let_def split: option.splits)

lemma on_complete_done:
  "r < length (runs s) \<Longrightarrow>
   getResourcePatches (store s) (tabId (handles s (r_handle (runs s ! r)))) (resourceUrl (handles s (r_handle (runs s ! r)))) = None \<Longrightarrow>
   snd (on_complete now r u s) =
     (emit r Console_groupEnd (upd_run r (\<lambda>x. x\<lparr>r_snapshot := None, r_stage := Settled\<rparr>) s))
       \<lparr>transactions := (transactions s)(getKey (tabId (handles s (r_handle (runs s ! r)))) (resourceUrl (handles s (r_handle (runs s ! r)))) := None)\<rparr>"
  by (simp add: on_complete_def Let_def)

lemma on_complete_restart:
  "r < length (runs s) \<Longrightarrow>
   getResourcePatches (store s) (tabId (handles s (r_handle (runs s ! r)))) (resourceUrl (handles s (r_handle (runs s ! r)))) = Some p \<Longrightarrow>
   snd (on_complete now r u s) =
     transaction_call now (r_handle (runs s ! r)) (r_applyPatch (runs s ! r))
       (emit r (Console_info ''Pending patches, restart transaction for'')
         (emit r Console_groupEnd (upd_run r (\<lambda>x. x\<lparr>r_snapshot := None, r_stage := Settled\<rparr>) s)))"
  by (simp add: on_complete_def Let_def)

lemma resume_write_rejected:
  "resume_write now r (Rejected (Object e)) s = on_complete now r () (snd (on_error r (Object e) s))"
  by (simp add: resume_write_def on_error_def)

lemma resume_write_nullish:
  "nullish e \<Longrightarrow>
   resume_write now r (Rejected e) s =
     (Rejected (Object cannot_read), upd_run r (\<lambda>x. x\<lparr>r_stage := Unhandled\<rparr>) s)"
  by (simp add: resume_write_def on_error_nullish)

lemma resume_write_fulfilled:
  "resume_write now r (Fulfilled u) s = on_complete now r () s"
  by (simp add: resume_write_def)

lemma resume_race_rejected:
  "resume_race now r (Rejected e) s = resume_write now r (Rejected e) s"
  by (simp add: resume_race_def resume_write_def)

lemma resume_read_rejected:
  "resume_read now r (Rejected e) s = resume_write now r (Rejected e) s"
  by (simp add: resume_read_def resume_write_def)

lemma resume_race_fulfilled:
  "resume_race now r (Fulfilled resp) s =
     resume_write now r (fst (on_response now r resp s)) (snd (on_response now r resp s))"
  by (simp add: resume_race_def resume_write_def)

lemma resume_read_fulfilled:
  "resume_read now r (Fulfilled c) s =
     resume_race now r (fst (on_content now r c s)) (snd (on_content now r c s))"
  by (simp add: resume_read_def resume_race_def)

lemma resume_pending [simp]:
  "resume_write now r Pending s = (Pending, s)"
  "resume_race now r Pending s = (Pending, s)"
  "resume_read now r Pending s = (Pending, s)"
  by (simp_all add: resume_read_def resume_race_def resume_write_def)

lemma on_error_trace:
  "trace (snd (on_error r (Object e) s)) =
     trace s @ (if err_code e = Some ''ECANCEL'' then [] else [(r, Console_error e)])"
  by (simp add: on_error_def)

lemma on_error_sel [simp]:
  "runs (snd (on_error r (Object e) s)) = runs s"
  "handles (snd (on_error r e' s)) = handles s"
  "timers (snd (on_error r e' s)) = timers s"
  "store (snd (on_error r e' s)) = store s"
  "transactions (snd (on_error r e' s)) = transactions s"
  "next_timer (snd (on_error r e' s)) = next_timer s"
  "next_handle (snd (on_error r e' s)) = next_handle s"
  by (simp_all add: on_error_def split: reason.splits)

lemma resume_rejected:
  "resume_write now r (Rejected (Object e)) s =
     on_complete now r () (if err_code e = Some ''ECANCEL'' then s else emit r (Console_error e) s)"
  by (simp add: resume_write_rejected on_error_def)

lemma resume_race_destroyed:
  assumes "r < length (runs s)"
    and "getResourcePatches (store s) (tabId (handles s (r_handle (runs s ! r))))
           (resourceUrl (handles s (r_handle (runs s ! r)))) = None"
  shows "resume_race now r (Fulfilled resp) s =
     on_complete now r ()
       (emit r (Console_info ''Session destroyed when patching resource, abort'')
          (emit r (Console_info ''Resource patched, try to update content'') s))"
  using assms
  by (simp add: resume_race_fulfilled on_response_def cancel_def resume_rejected error_def Let_def)

lemma resume_race_stale:
  assumes "r < length (runs s)"
    and "getResourcePatches (store s) (tabId (handles s (r_handle (runs s ! r))))
           (resourceUrl (handles s (r_handle (runs s ! r)))) = Some cur"
    and "r_snapshot (runs s ! r) \<noteq> Some cur"
  shows "resume_race now r (Fulfilled resp) s =
     on_complete now r () (emit r (Console_info ''Resource patched, try to update content'') s)"
  using assms
  by (simp add: resume_race_fulfilled on_response_def resume_write_fulfilled Let_def)

lemma resume_race_commit:
  assumes "r < length (runs s)"
    and "getResourcePatches (store s) (tabId (handles s (r_handle (runs s ! r))))
           (resourceUrl (handles s (r_handle (runs s ! r)))) = Some cur"
    and "r_snapshot (runs s ! r) = Some cur"
  shows "resume_race now r (Fulfilled resp) s =
     (Pending,
      upd_run r (\<lambda>x. x\<lparr>r_stage := Await_write\<rparr>)
        (emit r (Devtools_update (tabId (handles s (r_handle (runs s ! r))))
                   (resourceUrl (handles s (r_handle (runs s ! r)))) (content resp))
           (dispatch r (Reset_resource_patches (resourceUrl (handles s (r_handle (runs s ! r))))
                          (tabId (handles s (r_handle (runs s ! r)))))
              (emit r (Console_info ''Resource patched, try to update content'') s))))"
  using assms
  by (simp add: resume_race_fulfilled on_response_def Let_def)

lemma resume_read_no_patches:
  assumes "r < length (runs s)"
    and "getResourcePatches (store s) (tabId (handles s (r_handle (runs s ! r))))
           (resourceUrl (handles s (r_handle (runs s ! r)))) = None"
  shows "resume_read now r (Fulfilled c) s =
     on_complete now r ()
       (emit r (Console_info ''No patches for resource, abort'')
          (upd_run r (\<lambda>x. x\<lparr>r_snapshot := None\<rparr>) s))"
  using assms
  by (simp add: resume_read_fulfilled on_content_def cancel_def resume_race_rejected
      resume_rejected error_def Let_def)

lemma resume_read_not_callable:
  assumes "r < length (runs s)"
    and "getResourcePatches (store s) (tabId (handles s (r_handle (runs s ! r))))
           (resourceUrl (handles s (r_handle (runs s ! r)))) = Some sn"
    and "r_applyPatch (runs s ! r) = None"
  shows "resume_read now r (Fulfilled c) s =
     on_complete now r ()
       (emit r (Console_error type_error) (upd_run r (\<lambda>x. x\<lparr>r_snapshot := Some sn\<rparr>) s))"
  using assms
  by (simp add: resume_read_fulfilled on_content_def resume_race_rejected
      resume_rejected type_error_def Let_def)

lemma resume_read_apply:
  assumes "r < length (runs s)"
    and "getResourcePatches (store s) (tabId (handles s (r_handle (runs s ! r))))
           (resourceUrl (handles s (r_handle (runs s ! r)))) = Some sn"
    and "r_applyPatch (runs s ! r) = Some f"
  shows "resume_read now r (Fulfilled c) s =
     (Pending,
      upd_run r (\<lambda>x. x\<lparr>r_stage := Await_race\<rparr>)
        (rejectOnTimeout r 10000 now
           (emit r (Apply_patch f c sn) (upd_run r (\<lambda>x. x\<lparr>r_snapshot := Some sn\<rparr>) s))))"
  using assms
  by (simp add: resume_read_fulfilled on_content_def Let_def)

lemma rejectOnTimeout_sel [simp]:
  "trace (rejectOnTimeout r d now s) = trace s"
  "runs (rejectOnTimeout r d now s) = runs s"
  "handles (rejectOnTimeout r d now s) = handles s"
  "timers (rejectOnTimeout r d now s) =
     timers s @ [\<lparr>t_id = next_timer s, t_due = now + d, t_cb = Reject_on_timeout r\<rparr>]"
  "store (rejectOnTimeout r d now s) = store s"
  "transactions (rejectOnTimeout r d now s) = transactions s"
  "next_timer (rejectOnTimeout r d now s) = Suc (next_timer s)"
  "next_handle (rejectOnTimeout r d now s) = next_handle s"
  by (simp_all add: rejectOnTimeout_def)

lemma on_complete_advances:
  assumes "r < length (runs s)"
  shows "advances s r (snd (on_complete now r u s))"
  using assms by (simp add: advances_def on_complete_trace split: option.splits)

lemma resume_write_advances:
  assumes "r < length (runs s)" "p \<noteq> Pending"
  shows "advances s r (snd (resume_write now r p s))"
proof (cases p)
  case Pending
  with assms show ?thesis by simp
next
  case (Fulfilled v)
  then show ?thesis using assms(1)
    by (simp add: resume_write_fulfilled on_complete_advances)
next
  case (Rejected e)
  then show ?thesis using assms(1)
    by (cases e)
      (simp_all add: resume_rejected resume_write_nullish advances_def on_complete_trace
        split: option.splits)
qed

lemma resume_race_advances:
  assumes "r < length (runs s)" "p \<noteq> Pending"
  shows "advances s r (snd (resume_race now r p s))"
proof (cases p)
  case Pending
  with assms show ?thesis by simp
next
  case (Rejected e)
  then show ?thesis using assms resume_write_advances [of r s "Rejected e" now]
    by (simp add: resume_race_rejected)
next
  case (Fulfilled resp)
  let ?cur = "getResourcePatches (store s) (tabId (handles s (r_handle (runs s ! r))))
           (resourceUrl (handles s (r_handle (runs s ! r))))"
  show ?thesis
  proof (cases ?cur)
    case None
    then show ?thesis using assms(1) unfolding Fulfilled
      by (simp add: resume_race_destroyed advances_def on_complete_trace)
  next
    case (Some cur)
    show ?thesis
    proof (cases "r_snapshot (runs s ! r) = Some cur")
      case True
      then show ?thesis using assms(1) Some unfolding Fulfilled
        by (simp add: resume_race_commit advances_def)
    next
      case False
      then show ?thesis using assms(1) Some unfolding Fulfilled
        by (simp add: resume_race_stale advances_def on_complete_trace)
    qed
  qed
qed

lemma resume_read_advances:
  assumes "r < length (runs s)" "r_stage (runs s ! r) = Await_read" "p \<noteq> Pending"
  shows "advances s r (snd (resume_read now r p s))"
proof (cases p)
  case Pending
  with assms show ?thesis by simp
next
  case (Rejected e)
  then show ?thesis using assms resume_write_advances [of r s "Rejected e" now]
    by (simp add: resume_read_rejected)
next
  case (Fulfilled c)
  let ?cur = "getResourcePatches (store s) (tabId (handles s (r_handle (runs s ! r))))
           (resourceUrl (handles s (r_handle (runs s ! r))))"
  show ?thesis
  proof (cases ?cur)
    case None
    then show ?thesis using assms(1) unfolding Fulfilled
      by (simp add: resume_read_no_patches advances_def on_complete_trace)
  next
    case (Some sn)
    show ?thesis
    proof (cases "r_applyPatch (runs s ! r)")
      case None
      then show ?thesis using assms(1) Some unfolding Fulfilled
        by (simp add: resume_read_not_callable advances_def on_complete_trace)
    next
      case (Some f)
      then show ?thesis using assms(1,2) \<open>?cur = Some sn\<close> unfolding Fulfilled
        by (simp add: resume_read_apply advances_def)
    qed
  qed
qed

lemma func_sel [simp]:
  "trace (func now h a s) = trace s @ [(length (runs s), Console_groupCollapsed),
      (length (runs s), Devtools_getContent (tabId (handles s h)) (resourceUrl (handles s h)))]"
  "runs (func now h a s) = runs s @ [\<lparr>r_handle = h, r_applyPatch = a, r_snapshot = None,
      r_stage = Await_read, r_started = now\<rparr>]"
  "handles (func now h a s) = handles s"
  "timers (func now h a s) = timers s"
  "store (func now h a s) = store s"
  "transactions (func now h a s) = transactions s"
  "next_timer (func now h a s) = next_timer s"
  "next_handle (func now h a s) = next_handle s"
  by (simp_all add: func_def Let_def)

lemma later_cases:
  "(trace (later func w False now h s) = trace s \<and> runs (later func w False now h s) = runs s)
   \<or> starts s (later func w False now h s)"
  by (simp add: later_def starts_def Let_def split_def split: option.splits)

lemma requestUpdateTransaction_sel [simp]:
  "trace (requestUpdateTransaction now tab url f s) = trace s"
  "runs (requestUpdateTransaction now tab url f s) = runs s"
  "store (requestUpdateTransaction now tab url f s) = store s"
  by (simp_all add: requestUpdateTransaction_def createTransaction_def Let_def split: option.splits)

lemma step_cases:
  "(trace (step s e) = trace s \<and> runs (step s e) = runs s)
   \<or> (\<exists>r. r < length (runs s) \<and> suspended (r_stage (runs s ! r)) \<and> advances s r (step s e))
   \<or> starts s (step s e)"
proof (cases e)
  case (Pair now ev)
  show ?thesis
  proof (cases ev)
    case (Request tab url f)
    then show ?thesis using Pair by simp
  next
    case (Fire tid)
    show ?thesis
    proof (cases "find (\<lambda>tm. t_id tm = tid) (timers s)")
      case None
      then show ?thesis using Pair Fire by simp
    next
      case (Some tm)
      show ?thesis
      proof (cases "t_due tm \<le> now")
        case False
        then show ?thesis using Pair Fire Some by simp
      next
        case True
        let ?s1 = "s\<lparr>timers := remove1 tm (timers s)\<rparr>"
        show ?thesis
        proof (cases "t_cb tm")
          case (Later h)
          then show ?thesis
            using Pair Fire Some True later_cases [of updateDebounce now h ?s1]
            by (auto simp add: fire_def starts_def Let_def)
        next
          case (Reject_on_timeout r)
          show ?thesis
          proof (cases "waiting s r Await_race")
            case False
            then show ?thesis using Pair Fire Some True Reject_on_timeout
              by (auto simp add: fire_def waiting_def Let_def)
          next
            case w: True
            then have "advances ?s1 r (snd (resume_race now r (Rejected (Object timeout_error)) ?s1))"
              by (intro resume_race_advances) (simp_all add: waiting_def)
            then have "advances s r (step s e)"
              using Pair Fire Some True Reject_on_timeout w
              by (simp add: fire_def waiting_def advances_def Let_def)
            then show ?thesis using w by (auto simp add: waiting_def)
          qed
        qed
      qed
    qed
  next
    case (Read_settled r p)
    show ?thesis
    proof (cases "waiting s r Await_read")
      case False
      then show ?thesis using Pair Read_settled by simp
    next
      case True
      then have "advances s r (snd (resume_read now r (settled p) s))"
        by (intro resume_read_advances) (simp_all add: waiting_def, cases p, simp_all)
      then show ?thesis using True Pair Read_settled by (auto simp add: waiting_def)
    qed
  next
    case (Apply_settled r p)
    show ?thesis
    proof (cases "waiting s r Await_race")
      case False
      then show ?thesis using Pair Apply_settled by simp
    next
      case True
      then have "advances s r (snd (resume_race now r (settled p) s))"
        by (intro resume_race_advances) (simp_all add: waiting_def, cases p, simp_all)
      then show ?thesis using True Pair Apply_settled by (auto simp add: waiting_def)
    qed
  next
    case (Write_settled r p)
    show ?thesis
    proof (cases "waiting s r Await_write")
      case False
      then show ?thesis using Pair Write_settled by simp
    next
      case True
      then have "advances s r (snd (resume_write now r (settled p) s))"
        by (intro resume_write_advances) (simp_all add: waiting_def, cases p, simp_all)
      then show ?thesis using True Pair Write_settled by (auto simp add: waiting_def)
    qed
  next
    case (Store_changed tab se)
    then show ?thesis using Pair by simp
  qed
qed

lemma run_effects_append:
  assumes "trace s' = trace s @ v" "\<forall>x\<in>set v. fst x = r0"
  shows "run_effects s' r = run_effects s r @ (if r = r0 then map snd v else [])"
proof -
  have "filter (\<lambda>x. fst x = r) v = (if r = r0 then v else [])"
    using assms(2) by (auto simp add: filter_empty_conv filter_id_conv)
  then show ?thesis using assms(1) by (simp add: run_effects_def)
qed

lemma step_consider:
  obtains (same) "trace (step s e) = trace s" "runs (step s e) = runs s"
    | (adv) r0 where "r0 < length (runs s)" "suspended (r_stage (runs s ! r0))" "advances s r0 (step s e)"
    | (new) "starts s (step s e)"
  using step_cases [of s e] by blast

lemma advancesE:
  assumes "advances s r0 s'"
  obtains v where "trace s' = trace s @ v" "\<forall>x\<in>set v. fst x = r0"
      "r_stage (runs s' ! r0) \<in> {Await_read, Await_race} \<longrightarrow>
             r_stage (runs s ! r0) = Await_read \<and> (\<forall>x\<in>set v. \<not> is_commit (snd x) \<and> \<not> is_error (snd x))"
      "length (runs s') = length (runs s)"
      "\<forall>r'. r' \<noteq> r0 \<longrightarrow> runs s' ! r' = runs s ! r'"
      "r_handle (runs s' ! r0) = r_handle (runs s ! r0)"
  using assms unfolding advances_def by (elim conjE exE) (rule that)

lemma startsE:
  assumes "starts s s'"
  obtains x v where "runs s' = runs s @ [x]" "r_stage x = Await_read"
      "trace s' = trace s @ v" "\<forall>y\<in>set v. fst y = length (runs s)"
      "\<forall>y\<in>set v. \<not> is_commit (snd y) \<and> \<not> is_error (snd y)"
proof -
  from assms obtain x v where a: "runs s' = runs s @ [x]" "r_stage x = Await_read"
      "trace s' = trace s @ v"
      "\<forall>y\<in>set v. fst y = length (runs s) \<and> \<not> is_commit (snd y) \<and> \<not> is_error (snd y)"
    unfolding starts_def by (elim conjE exE)
  from a(4) have "\<forall>y\<in>set v. fst y = length (runs s)"
    "\<forall>y\<in>set v. \<not> is_commit (snd y) \<and> \<not> is_error (snd y)" by simp_all
  with a(1-3) show ?thesis by (rule that)
qed

lemma unspoiltD:
  assumes "unspoilt s" "r < length (runs s)" "r_stage (runs s ! r) \<in> {Await_read, Await_race}"
  shows "\<forall>e\<in>set (run_effects s r). \<not> is_commit e \<and> \<not> is_error e"
  using assms unfolding unspoilt_def by blast

lemma unspoilt_beyond:
  assumes "unspoilt s" "length (runs s) \<le> r"
  shows "run_effects s r = []"
  using assms unfolding unspoilt_def by blast

lemma unspoilt_step:
  assumes "unspoilt s"
  shows "unspoilt (step s e)"
proof (cases rule: step_consider [of s e])
  case same
  then show ?thesis using assms by (simp add: unspoilt_def run_effects_def)
next
  case (adv r0)
  from adv(3) obtain v where v: "trace (step s e) = trace s @ v" "\<forall>x\<in>set v. fst x = r0"
    and q: "r_stage (runs (step s e) ! r0) \<in> {Await_read, Await_race} \<longrightarrow>
           r_stage (runs s ! r0) = Await_read \<and> (\<forall>x\<in>set v. \<not> is_commit (snd x) \<and> \<not> is_error (snd x))"
    and len: "length (runs (step s e)) = length (runs s)"
    and other: "\<forall>r'. r' \<noteq> r0 \<longrightarrow> runs (step s e) ! r' = runs s ! r'"
    by (rule advancesE)
  note eff = run_effects_append [OF v]
  show ?thesis
    unfolding unspoilt_def
  proof (intro allI conjI impI)
    fix r assume "length (runs (step s e)) \<le> r"
    then show "run_effects (step s e) r = []"
      using unspoilt_beyond [OF assms, of r] adv(1) len by (simp add: eff)
  next
    fix r assume r: "r < length (runs (step s e))"
      and st: "r_stage (runs (step s e) ! r) \<in> {Await_read, Await_race}"
    show "\<forall>e\<in>set (run_effects (step s e) r). \<not> is_commit e \<and> \<not> is_error e"
    proof (cases "r = r0")
      case True
      with q st have old: "r_stage (runs s ! r0) = Await_read"
        and new: "\<forall>x\<in>set v. \<not> is_commit (snd x) \<and> \<not> is_error (snd x)" by auto
      from assms adv(1) old have "\<forall>e\<in>set (run_effects s r0). \<not> is_commit e \<and> \<not> is_error e"
        by (intro unspoiltD) simp_all
      with new True show ?thesis by (auto simp add: eff)
    next
      case False
      with other st have "r_stage (runs s ! r) \<in> {Await_read, Await_race}" by simp
      with assms r len have "\<forall>e\<in>set (run_effects s r). \<not> is_commit e \<and> \<not> is_error e"
        by (intro unspoiltD) simp_all
      with False show ?thesis by (simp add: eff)
    qed
  qed
next
  case new
  then obtain x v where x: "runs (step s e) = runs s @ [x]" "r_stage x = Await_read"
    and v: "trace (step s e) = trace s @ v" "\<forall>y\<in>set v. fst y = length (runs s)"
    and q: "\<forall>y\<in>set v. \<not> is_commit (snd y) \<and> \<not> is_error (snd y)"
    by (rule startsE)
  note eff = run_effects_append [OF v]
  show ?thesis
    unfolding unspoilt_def
  proof (intro allI conjI impI)
    fix r assume "length (runs (step s e)) \<le> r"
    then show "run_effects (step s e) r = []"
      using unspoilt_beyond [OF assms, of r] x(1) by (simp add: eff)
  next
    fix r assume r: "r < length (runs (step s e))"
      and st: "r_stage (runs (step s e) ! r) \<in> {Await_read, Await_race}"
    show "\<forall>e\<in>set (run_effects (step s e) r). \<not> is_commit e \<and> \<not> is_error e"
    proof (cases "r = length (runs s)")
      case True
      with assms have "run_effects s r = []" by (intro unspoilt_beyond) simp_all
      with q True show ?thesis by (auto simp add: eff)
    next
      case False
      with r x(1) have lt: "r < length (runs s)" by simp
      with st x(1) have "r_stage (runs s ! r) \<in> {Await_read, Await_race}"
        by (simp add: nth_append)
      with assms lt have "\<forall>e\<in>set (run_effects s r). \<not> is_commit e \<and> \<not> is_error e"
        by (intro unspoiltD) simp_all
      with False show ?thesis by (simp add: eff)
    qed
  qed
qed

lemma unspoilt_init: "unspoilt init"
  by (simp add: unspoilt_def init_def run_effects_def)

lemma unspoilt_exec: "unspoilt s \<Longrightarrow> unspoilt (exec s es)"
  unfolding exec_def by (induction es arbitrary: s) (simp_all add: unspoilt_step)

lemma finished_step:
  assumes "r < length (runs s)" "\<not> suspended (r_stage (runs s ! r))"
  shows "run_effects (step s e) r = run_effects s r \<and> r < length (runs (step s e))
     \<and> runs (step s e) ! r = runs s ! r"
proof (cases rule: step_consider [of s e])
  case same
  then show ?thesis using assms by (simp add: run_effects_def)
next
  case (adv r0)
  from adv(3) obtain v where v: "trace (step s e) = trace s @ v" "\<forall>x\<in>set v. fst x = r0"
    and len: "length (runs (step s e)) = length (runs s)"
    and other: "\<forall>r'. r' \<noteq> r0 \<longrightarrow> runs (step s e) ! r' = runs s ! r'"
    by (rule advancesE)
  from adv(2) assms(2) have "r \<noteq> r0" by auto
  then show ?thesis using assms len other by (simp add: run_effects_append [OF v])
next
  case new
  then obtain x v where x: "runs (step s e) = runs s @ [x]"
    and v: "trace (step s e) = trace s @ v" "\<forall>y\<in>set v. fst y = length (runs s)"
    by (rule startsE)
  from assms(1) have "r \<noteq> length (runs s)" by simp
  then show ?thesis using assms x by (simp add: run_effects_append [OF v] nth_append)
qed

lemma finished_exec:
  assumes "r < length (runs s)" "\<not> suspended (r_stage (runs s ! r))"
  shows "run_effects (exec s es) r = run_effects s r \<and> r < length (runs (exec s es))
     \<and> runs (exec s es) ! r = runs s ! r"
  using assms unfolding exec_def
proof (induction es arbitrary: s)
  case Nil
  then show ?case by simp
next
  case (Cons e es)
  from finished_step [OF Cons.prems, of e] Cons.IH [of "step s e"] Cons.prems(2)
  show ?case by simp
qed

lemma settled_exec:
  assumes "r < length (runs s)" "r_stage (runs s ! r) = Settled"
  shows "run_effects (exec s es) r = run_effects s r \<and> r < length (runs (exec s es))
     \<and> r_stage (runs (exec s es) ! r) = Settled"
  using finished_exec [of r s es] assms by simp

lemma on_complete_summary:
  assumes "r < length (runs s)"
  shows "trace (snd (on_complete now r u s)) = trace s @ (r, Console_groupEnd) #
           (case pending_patches s r of None \<Rightarrow> []
            | Some p \<Rightarrow> [(r, Console_info ''Pending patches, restart transaction for'')])"
    and "r_stage (runs (snd (on_complete now r u s)) ! r) = Settled"
    and "pending_patches s r = None \<Longrightarrow>
           transactions (snd (on_complete now r u s)) = (transactions s)(getKey (run_tab s r) (run_url s r) := None)
           \<and> handles (snd (on_complete now r u s)) = handles s
           \<and> timers (snd (on_complete now r u s)) = timers s"
    and "pending_patches s r \<noteq> None \<Longrightarrow>
           transactions (snd (on_complete now r u s)) = transactions s
           \<and> args (handles (snd (on_complete now r u s)) (r_handle (runs s ! r))) = r_applyPatch (runs s ! r)
           \<and> timestamp (handles (snd (on_complete now r u s)) (r_handle (runs s ! r))) = Some now
           \<and> timeout (handles (snd (on_complete now r u s)) (r_handle (runs s ! r))) \<noteq> None"
  using assms
  by (auto simp add: run_defs on_complete_trace on_complete_done on_complete_restart
      transaction_call_handles split: option.splits)

lemma rejection_absorbed:
  assumes "err_code err \<noteq> Some ''ECANCEL''"
    and "(ev = Read_settled r (Inl (Object err)) \<and> waiting s r Await_read
            \<and> res = resume_read now r (Rejected (Object err)) s)
       \<or> (ev = Apply_settled r (Inl (Object err)) \<and> waiting s r Await_race
            \<and> res = resume_race now r (Rejected (Object err)) s)
       \<or> (ev = Write_settled r (Inl (Object err)) \<and> waiting s r Await_write
            \<and> res = resume_write now r (Rejected (Object err)) s)
       \<or> (ev = Fire tid \<and> find (\<lambda>x. t_id x = tid) (timers s) = Some tm \<and> t_due tm \<le> now
            \<and> t_cb tm = Reject_on_timeout r \<and> err = timeout_error \<and> waiting s r Await_race
            \<and> res = resume_race now r (Rejected (Object err)) (s\<lparr>timers := remove1 tm (timers s)\<rparr>))"
  shows "step s (now, ev) = snd res
     \<and> fst res = Fulfilled ()
     \<and> trace (snd res) = trace s @ (r, Console_error err) # (r, Console_groupEnd) #
          (case pending_patches s r of None \<Rightarrow> []
           | Some p \<Rightarrow> [(r, Console_info ''Pending patches, restart transaction for'')])
     \<and> r_stage (runs (snd res) ! r) = Settled
     \<and> (pending_patches s r = None \<longrightarrow>
          transactions (snd res) (getKey (run_tab s r) (run_url s r)) = None)"
proof -
  let ?s1 = "s\<lparr>timers := remove1 tm (timers s)\<rparr>"
  have r: "r < length (runs s)"
    using assms(2) by (auto simp add: waiting_def)
  have rej: "resume_write now r (Rejected (Object err)) x = on_complete now r () (emit r (Console_error err) x)" for x
    using assms(1) by (simp add: resume_rejected)
  have common: "fst (on_complete now r () (emit r (Console_error err) x)) = Fulfilled ()" for x
    by simp
  from assms(2) consider
      (rd) "ev = Read_settled r (Inl (Object err))" "waiting s r Await_read"
        "res = on_complete now r () (emit r (Console_error err) s)"
    | (ap) "ev = Apply_settled r (Inl (Object err))" "waiting s r Await_race"
        "res = on_complete now r () (emit r (Console_error err) s)"
    | (wr) "ev = Write_settled r (Inl (Object err))" "waiting s r Await_write"
        "res = on_complete now r () (emit r (Console_error err) s)"
    | (tmo) "ev = Fire tid" "find (\<lambda>x. t_id x = tid) (timers s) = Some tm" "t_due tm \<le> now"
        "t_cb tm = Reject_on_timeout r" "waiting s r Await_race" "err = timeout_error"
        "res = on_complete now r () (emit r (Console_error err) ?s1)"
    by (auto simp add: resume_read_rejected resume_race_rejected rej)
  then show ?thesis
  proof cases
    case rd
    then show ?thesis using r on_complete_summary [of r "emit r (Console_error err) s" now "()"]
      by (simp add: resume_read_rejected rej run_defs)
  next
    case ap
    then show ?thesis using r on_complete_summary [of r "emit r (Console_error err) s" now "()"]
      by (simp add: resume_race_rejected rej run_defs)
  next
    case wr
    then show ?thesis using r on_complete_summary [of r "emit r (Console_error err) s" now "()"]
      by (simp add: rej run_defs)
  next
    case tmo
    then show ?thesis
      using r assms(1) on_complete_summary [of r "emit r (Console_error err) ?s1" now "()"]
      by (simp add: resume_race_rejected resume_rejected run_defs fire_def waiting_def Let_def)
  qed
qed

lemma reachable_unspoilt: "unspoilt (exec init es)"
  by (rule unspoilt_exec [OF unspoilt_init])

lemma settled_forever:
  assumes "r < length (runs s')" "r_stage (runs s' ! r) = Settled"
    and "\<forall>e\<in>set (run_effects s' r). P e"
  shows "\<forall>e\<in>set (run_effects (exec s' es) r). P e"
  using settled_exec [OF assms(1,2), of es] assms(3) by simp

lemma getResourcePatches_reset:
  "getResourcePatches (reducer (Reset_resource_patches url tab) st) tab url = None"
  by (simp add: getResourcePatches_def split: option.splits)

lemma write_settled_store:
  "store (step x (t, Write_settled r p)) = store x"
proof (cases p)
  case (Inl e)
  then show ?thesis
    by (cases e) (simp_all add: resume_rejected resume_write_nullish resume_write_fulfilled)
next
  case (Inr u)
  then show ?thesis by (simp add: resume_write_fulfilled)
qed

section \<open>The scenarios, evaluated\<close>

lemma reading_state:
  "waiting (exec init reading) 0 Await_read"
  "pending_patches (exec init reading) 0 = Some 7"
  "r_applyPatch (runs (exec init reading) ! 0) = Some 5"
  "trace (exec init reading) = [(0, Console_groupCollapsed), (0, Devtools_getContent 1 ''a.css'')]"
  by (simp_all add: scenario_defs run_defs model_defs)

lemma applying_state:
  "waiting (exec init applying) 0 Await_race"
  "pending_patches (exec init applying) 0 = Some 7"
  "r_snapshot (runs (exec init applying) ! 0) = Some 7"
  "run_tab (exec init applying) 0 = 1"
  "run_url (exec init applying) 0 = ''a.css''"
  "timers (exec init applying) = [race_timer]"
  by (simp_all add: scenario_defs run_defs model_defs)

lemma committing_state:
  "waiting (exec init committing) 0 Await_write"
  "pending_patches (exec init committing) 0 = None"
  "run_tab (exec init committing) 0 = 1"
  "run_url (exec init committing) 0 = ''a.css''"
  "transactions (exec init committing) ''1+a.css'' = Some 0"
  by (simp_all add: scenario_defs run_defs model_defs)

lemma demo_key:
  "getKey 1 ''a.css'' = ''1+a.css''"
  "getKey (Suc 0) ''a.css'' = ''1+a.css''"
  by (simp_all add: getKey_def string_of_nat.simps)

lemma committing_runs:
  "runs (exec init committing) =
     [\<lparr>r_handle = 0, r_applyPatch = Some 5, r_snapshot = Some 7, r_stage = Await_write,
       r_started = 1000\<rparr>]"
  by (simp add: scenario_defs model_defs)

lemma edited_state:
  "waiting (exec init edited) 0 Await_race"
  "pending_patches (exec init edited) 0 = Some 8"
  "r_snapshot (runs (exec init edited) ! 0) = Some 7"
  "r_handle (runs (exec init edited) ! 0) = 0"
  "r_applyPatch (runs (exec init edited) ! 0) = Some 5"
  by (simp_all add: scenario_defs run_defs model_defs)

lemma no_session_state:
  "waiting (exec init no_session) 0 Await_read"
  "pending_patches (exec init no_session) 0 = None"
  "run_tab (exec init no_session) 0 = 1"
  "run_url (exec init no_session) 0 = ''a.css''"
  "transactions (exec init no_session) ''1+a.css'' = Some 0"
  by (simp_all add: scenario_defs run_defs model_defs)

section \<open>The snapshot accessor\<close>

text \<open>
  C9. The accessor returns nothing exactly when the session of the tab does not exist or
  the session holds no snapshot for the resource (its backlog is empty); otherwise it
  returns the stored snapshot.
\<close>

theorem getResourcePatches_none_iff:
  "(getResourcePatches st tab url = None \<longleftrightarrow>
      st tab = None \<or> (\<exists>se. st tab = Some se \<and> patches se url = None))
   \<and> (\<forall>se p. st tab = Some se \<and> patches se url = Some p \<longrightarrow>
         getResourcePatches st tab url = Some p)"
  by (auto simp add: getResourcePatches_def split: option.splits)

theorem getResourcePatches_none_iff_witness:
  "getResourcePatches (Map.empty(1 \<mapsto> \<lparr>patches = Map.empty\<rparr>)) 1 ''a.css'' = None
   \<and> getResourcePatches (Map.empty(1 \<mapsto> demo_session)) 1 ''a.css'' = Some 7
   \<and> getResourcePatches (Map.empty(1 \<mapsto> demo_session)) 2 ''a.css'' = None"
  using getResourcePatches_none_iff [of "Map.empty(1 \<mapsto> \<lparr>patches = Map.empty\<rparr>)" 1 "''a.css''"]
    getResourcePatches_none_iff [of "Map.empty(1 \<mapsto> demo_session)" 1 "''a.css''"]
    getResourcePatches_none_iff [of "Map.empty(1 \<mapsto> demo_session)" 2 "''a.css''"]
  by (simp add: demo_session_def)

section \<open>The catch boundary\<close>

text \<open>
  C8. A rejection reaches \<^verbatim>\<open>.catch\<close>, from the read, the race or the write. When the
  reason is a value whose \<^verbatim>\<open>code\<close> can be read, it is never passed on: the promise of
  the chain is fulfilled; with code \<^verbatim>\<open>ECANCEL\<close> nothing is written to
  \<^verbatim>\<open>console.error\<close>, with any other code (or none) the error is; either way the
  completion recheck runs next and settles the run. When the reason is \<^verbatim>\<open>undefined\<close>
  or \<^verbatim>\<open>null\<close>, the code does otherwise: the handler throws, nothing is logged, the promise
  of the chain is rejected with the \<^verbatim>\<open>TypeError\<close>, and the completion recheck does not
  run (the trace, where it would have written \<^verbatim>\<open>console.groupEnd\<close>, is unchanged).
\<close>

theorem catch_boundary:
  assumes "r < length (runs s)"
  shows "resume_read now r (Rejected err) s = resume_write now r (Rejected err) s
    \<and> resume_race now r (Rejected err) s = resume_write now r (Rejected err) s
    \<and> (\<forall>e. err = Object e \<longrightarrow>
         fst (resume_write now r (Rejected err) s) = Fulfilled ()
         \<and> snd (resume_write now r (Rejected err) s) =
             snd (on_complete now r ()
                   (if err_code e = Some ''ECANCEL'' then s else emit r (Console_error e) s))
         \<and> filter (is_error \<circ> snd) (trace (snd (resume_write now r (Rejected err) s))) =
             filter (is_error \<circ> snd) (trace s) @
               (if err_code e = Some ''ECANCEL'' then [] else [(r, Console_error e)])
         \<and> r_stage (runs (snd (resume_write now r (Rejected err) s)) ! r) = Settled)
    \<and> (nullish err \<longrightarrow>
         fst (resume_write now r (Rejected err) s) = Rejected (Object cannot_read)
         \<and> snd (resume_write now r (Rejected err) s) =
             upd_run r (\<lambda>x. x\<lparr>r_stage := Unhandled\<rparr>) s
         \<and> trace (snd (resume_write now r (Rejected err) s)) = trace s
         \<and> r_stage (runs (snd (resume_write now r (Rejected err) s)) ! r) = Unhandled)"
proof -
  have a: "resume_read now r (Rejected err) s = resume_write now r (Rejected err) s"
    by (rule resume_read_rejected)
  have b: "resume_race now r (Rejected err) s = resume_write now r (Rejected err) s"
    by (rule resume_race_rejected)
  have c: "fst (resume_write now r (Rejected err) s) = Fulfilled ()
         \<and> snd (resume_write now r (Rejected err) s) =
             snd (on_complete now r ()
                   (if err_code e = Some ''ECANCEL'' then s else emit r (Console_error e) s))
         \<and> filter (is_error \<circ> snd) (trace (snd (resume_write now r (Rejected err) s))) =
             filter (is_error \<circ> snd) (trace s) @
               (if err_code e = Some ''ECANCEL'' then [] else [(r, Console_error e)])
         \<and> r_stage (runs (snd (resume_write now r (Rejected err) s)) ! r) = Settled"
    if "err = Object e" for e
    using assms that
    by (simp add: resume_write_rejected on_complete_trace on_error_trace on_error_def
        split: option.splits)
  have d: "fst (resume_write now r (Rejected err) s) = Rejected (Object cannot_read)
         \<and> snd (resume_write now r (Rejected err) s) =
             upd_run r (\<lambda>x. x\<lparr>r_stage := Unhandled\<rparr>) s
         \<and> trace (snd (resume_write now r (Rejected err) s)) = trace s
         \<and> r_stage (runs (snd (resume_write now r (Rejected err) s)) ! r) = Unhandled"
    if "nullish err"
    using assms that by (simp add: resume_write_nullish)
  from a b c d show ?thesis by blast
qed

text \<open>
  In the scenario \<open>committing\<close> the write is rejected: with \<^verbatim>\<open>undefined\<close>, with the
  cancellation error, with "disk full".
\<close>

theorem catch_boundary_witness:
  "0 < length (runs (exec init committing))
   \<and> fst (resume_write 1400 0 (Rejected Undefined) (exec init committing)) =
       Rejected (Object cannot_read)
   \<and> trace (snd (resume_write 1400 0 (Rejected Undefined) (exec init committing))) =
       trace (exec init committing)
   \<and> r_stage (runs (snd (resume_write 1400 0 (Rejected Undefined) (exec init committing))) ! 0) =
       Unhandled
   \<and> fst (resume_write 1400 0 (Rejected (Object (error ''ECANCEL'' ''Transaction was cancelled'')))
           (exec init committing)) = Fulfilled ()
   \<and> filter (is_error \<circ> snd)
        (trace (snd (resume_write 1400 0
           (Rejected (Object (error ''ECANCEL'' ''Transaction was cancelled'')))
           (exec init committing)))) = filter (is_error \<circ> snd) (trace (exec init committing))
   \<and> filter (is_error \<circ> snd)
        (trace (snd (resume_write 1400 0 (Rejected (Object disk_full)) (exec init committing)))) =
       filter (is_error \<circ> snd) (trace (exec init committing)) @ [(0, Console_error disk_full)]"
proof -
  let ?s = "exec init committing"
  let ?cancel = "error ''ECANCEL'' ''Transaction was cancelled''"
  have h: "0 < length (runs ?s)"
    by (simp add: committing_runs)
  have c: "err_code ?cancel = Some ''ECANCEL''"
    by (simp add: error_def)
  have d: "err_code disk_full \<noteq> Some ''ECANCEL''"
    by (simp add: disk_full_def)
  have n: "nullish Undefined"
    by simp
  note u = catch_boundary [OF h, of 1400 Undefined, THEN conjunct2, THEN conjunct2, THEN conjunct2,
      rule_format, OF n]
  note a = catch_boundary [OF h, of 1400 "Object ?cancel", THEN conjunct2, THEN conjunct2,
      THEN conjunct1, rule_format, OF refl]
  note b = catch_boundary [OF h, of 1400 "Object disk_full", THEN conjunct2, THEN conjunct2,
      THEN conjunct1, rule_format, OF refl]
  note u1 = u [THEN conjunct1]
  note u3 = u [THEN conjunct2, THEN conjunct2, THEN conjunct1]
  note u4 = u [THEN conjunct2, THEN conjunct2, THEN conjunct2]
  note a1 = a [THEN conjunct1]
  note a3 = a [THEN conjunct2, THEN conjunct2, THEN conjunct1]
  note b3 = b [THEN conjunct2, THEN conjunct2, THEN conjunct1]
  show ?thesis
    using h u1 u3 u4 a1 a3 b3 by (simp only: c d if_True if_False append_Nil2 simp_thms)
qed

section \<open>Failures\<close>

text \<open>
  C7. The read, \<^verbatim>\<open>applyPatch\<close>, the race (the timeout) or the write fails; the step of
  the event is the rest of the chain. When the reason is a value whose \<^verbatim>\<open>code\<close> can be
  read and is not \<^verbatim>\<open>ECANCEL\<close>: the promise of the chain is fulfilled, so nothing is passed
  on to anybody; the error is written to \<^verbatim>\<open>console.error\<close>; the completion recheck runs
  and settles the run; and when no patches remain the key is deleted from the registry.
  When the reason is \<^verbatim>\<open>undefined\<close> or \<^verbatim>\<open>null\<close>, the code does otherwise: the promise
  of the chain is rejected, nothing is logged, the recheck does not run, the registry, the
  handles and the timers stay as they are (the key is not deleted, the handle is not called
  again), and the run writes nothing ever after.
\<close>

theorem failure_outcome:
  assumes "(ev = Read_settled r (Inl err) \<and> waiting s r Await_read
            \<and> res = resume_read now r (Rejected err) s)
       \<or> (ev = Apply_settled r (Inl err) \<and> waiting s r Await_race
            \<and> res = resume_race now r (Rejected err) s)
       \<or> (ev = Write_settled r (Inl err) \<and> waiting s r Await_write
            \<and> res = resume_write now r (Rejected err) s)
       \<or> (ev = Fire tid \<and> find (\<lambda>x. t_id x = tid) (timers s) = Some tm \<and> t_due tm \<le> now
            \<and> t_cb tm = Reject_on_timeout r \<and> err = Object timeout_error \<and> waiting s r Await_race
            \<and> res = resume_race now r (Rejected err) (s\<lparr>timers := remove1 tm (timers s)\<rparr>))"
  shows "(\<forall>e. err = Object e \<and> err_code e \<noteq> Some ''ECANCEL'' \<longrightarrow>
          step s (now, ev) = snd res
          \<and> fst res = Fulfilled ()
          \<and> trace (snd res) = trace s @ (r, Console_error e) # (r, Console_groupEnd) #
               (case pending_patches s r of None \<Rightarrow> []
                | Some p \<Rightarrow> [(r, Console_info ''Pending patches, restart transaction for'')])
          \<and> r_stage (runs (snd res) ! r) = Settled
          \<and> (pending_patches s r = None \<longrightarrow>
               transactions (snd res) (getKey (run_tab s r) (run_url s r)) = None))
     \<and> (nullish err \<longrightarrow>
          step s (now, ev) = snd res
          \<and> fst res = Rejected (Object cannot_read)
          \<and> trace (snd res) = trace s
          \<and> transactions (snd res) = transactions s
          \<and> handles (snd res) = handles s
          \<and> timers (snd res) = timers s
          \<and> store (snd res) = store s
          \<and> r_stage (runs (snd res) ! r) = Unhandled
          \<and> (\<forall>es. run_effects (exec (snd res) es) r = run_effects s r))"
proof (intro conjI allI impI)
  fix e assume e: "err = Object e \<and> err_code e \<noteq> Some ''ECANCEL''"
  then have ne: "err_code e \<noteq> Some ''ECANCEL''" and err: "err = Object e" by simp_all
  have hyp: "(ev = Read_settled r (Inl (Object e)) \<and> waiting s r Await_read
            \<and> res = resume_read now r (Rejected (Object e)) s)
       \<or> (ev = Apply_settled r (Inl (Object e)) \<and> waiting s r Await_race
            \<and> res = resume_race now r (Rejected (Object e)) s)
       \<or> (ev = Write_settled r (Inl (Object e)) \<and> waiting s r Await_write
            \<and> res = resume_write now r (Rejected (Object e)) s)
       \<or> (ev = Fire tid \<and> find (\<lambda>x. t_id x = tid) (timers s) = Some tm \<and> t_due tm \<le> now
            \<and> t_cb tm = Reject_on_timeout r \<and> e = timeout_error \<and> waiting s r Await_race
            \<and> res = resume_race now r (Rejected (Object e)) (s\<lparr>timers := remove1 tm (timers s)\<rparr>))"
    using assms unfolding err by simp
  note abs = rejection_absorbed [OF ne hyp]
  show "step s (now, ev) = snd res" using abs by blast
  show "fst res = Fulfilled ()" using abs by blast
  show "trace (snd res) = trace s @ (r, Console_error e) # (r, Console_groupEnd) #
               (case pending_patches s r of None \<Rightarrow> []
                | Some p \<Rightarrow> [(r, Console_info ''Pending patches, restart transaction for'')])"
    using abs by blast
  show "r_stage (runs (snd res) ! r) = Settled" using abs by blast
  show "transactions (snd res) (getKey (run_tab s r) (run_url s r)) = None"
    if "pending_patches s r = None"
    using abs that by blast
next
  assume n: "nullish err"
  then have "err \<noteq> Object timeout_error" by auto
  with assms have w: "waiting s r Await_read \<or> waiting s r Await_race \<or> waiting s r Await_write"
    and ev: "(ev = Read_settled r (Inl err) \<and> waiting s r Await_read)
       \<or> (ev = Apply_settled r (Inl err) \<and> waiting s r Await_race)
       \<or> (ev = Write_settled r (Inl err) \<and> waiting s r Await_write)"
    and res: "res = resume_write now r (Rejected err) s"
    by (auto simp add: resume_read_rejected resume_race_rejected)
  from w have r: "r < length (runs s)" by (auto simp add: waiting_def)
  have res': "res = (Rejected (Object cannot_read), upd_run r (\<lambda>x. x\<lparr>r_stage := Unhandled\<rparr>) s)"
    unfolding res using n by (rule resume_write_nullish)
  show "step s (now, ev) = snd res"
    using ev unfolding res by (auto simp add: resume_read_rejected resume_race_rejected)
  show "fst res = Rejected (Object cannot_read)" by (simp add: res')
  show "trace (snd res) = trace s" by (simp add: res')
  show "transactions (snd res) = transactions s" by (simp add: res')
  show "handles (snd res) = handles s" by (simp add: res')
  show "timers (snd res) = timers s" by (simp add: res')
  show "store (snd res) = store s" by (simp add: res')
  show st: "r_stage (runs (snd res) ! r) = Unhandled" using r by (simp add: res')
  have len: "r < length (runs (snd res))" using r by (simp add: res')
  have fin: "\<not> suspended (r_stage (runs (snd res) ! r))" using st by simp
  have same: "run_effects (snd res) r = run_effects s r"
    by (simp add: res' run_effects_def)
  show "run_effects (exec (snd res) es) r = run_effects s r" for es
    using finished_exec [OF len fin, of es] same by simp
qed

text \<open>
  The scenario \<open>committing\<close>, with the key of \<open>(1, a.css)\<close> in the registry. When the
  write fails with "disk full", the error is logged and the key is deleted. When the write
  is rejected with \<^verbatim>\<open>undefined\<close>, nothing is logged, the group is never closed and the
  key stays in the registry.
\<close>

theorem failure_outcome_witness:
  "transactions (exec init committing) ''1+a.css'' = Some 0
   \<and> trace (step (exec init committing) (1400, Write_settled 0 (Inl (Object disk_full)))) =
        trace (exec init committing) @ [(0, Console_error disk_full), (0, Console_groupEnd)]
   \<and> transactions (step (exec init committing) (1400, Write_settled 0 (Inl (Object disk_full))))
        ''1+a.css'' = None
   \<and> fst (resume_write 1400 0 (Rejected Undefined) (exec init committing)) =
        Rejected (Object cannot_read)
   \<and> trace (step (exec init committing) (1400, Write_settled 0 (Inl Undefined))) =
        trace (exec init committing)
   \<and> transactions (step (exec init committing) (1400, Write_settled 0 (Inl Undefined)))
        ''1+a.css'' = Some 0
   \<and> r_stage (runs (step (exec init committing) (1400, Write_settled 0 (Inl Undefined))) ! 0) =
        Unhandled"
proof -
  let ?s = "exec init committing"
  have ne: "err_code disk_full \<noteq> Some ''ECANCEL''"
    by (simp add: disk_full_def)
  have hyp: "(Write_settled 0 (Inl err) = Read_settled 0 (Inl err)
            \<and> waiting ?s 0 Await_read
            \<and> resume_write 1400 0 (Rejected err) ?s = resume_read 1400 0 (Rejected err) ?s)
       \<or> (Write_settled 0 (Inl err) = Apply_settled 0 (Inl err)
            \<and> waiting ?s 0 Await_race
            \<and> resume_write 1400 0 (Rejected err) ?s = resume_race 1400 0 (Rejected err) ?s)
       \<or> (Write_settled 0 (Inl err) = Write_settled 0 (Inl err)
            \<and> waiting ?s 0 Await_write
            \<and> resume_write 1400 0 (Rejected err) ?s = resume_write 1400 0 (Rejected err) ?s)
       \<or> (Write_settled 0 (Inl err) = Fire 0
            \<and> find (\<lambda>x. t_id x = 0) (timers ?s) = Some race_timer \<and> t_due race_timer \<le> 1400
            \<and> t_cb race_timer = Reject_on_timeout 0 \<and> err = Object timeout_error
            \<and> waiting ?s 0 Await_race
            \<and> resume_write 1400 0 (Rejected err) ?s =
                resume_race 1400 0 (Rejected err) (?s\<lparr>timers := remove1 race_timer (timers ?s)\<rparr>))"
    for err
    by (simp add: committing_state)
  note full = failure_outcome [OF hyp, of "Object disk_full", THEN conjunct1, rule_format,
      of disk_full]
  note undef = failure_outcome [OF hyp, of Undefined, THEN conjunct2, rule_format]
  have f: "step ?s (1400, Write_settled 0 (Inl (Object disk_full))) =
        snd (resume_write 1400 0 (Rejected (Object disk_full)) ?s)"
    "trace (snd (resume_write 1400 0 (Rejected (Object disk_full)) ?s)) =
        trace ?s @ [(0, Console_error disk_full), (0, Console_groupEnd)]"
    "transactions (snd (resume_write 1400 0 (Rejected (Object disk_full)) ?s)) ''1+a.css'' = None"
    using full ne by (simp_all add: committing_state demo_key del: step.simps)
  have u: "step ?s (1400, Write_settled 0 (Inl Undefined)) =
        snd (resume_write 1400 0 (Rejected Undefined) ?s)"
    "fst (resume_write 1400 0 (Rejected Undefined) ?s) = Rejected (Object cannot_read)"
    "trace (snd (resume_write 1400 0 (Rejected Undefined) ?s)) = trace ?s"
    "transactions (snd (resume_write 1400 0 (Rejected Undefined) ?s)) = transactions ?s"
    "r_stage (runs (snd (resume_write 1400 0 (Rejected Undefined) ?s)) ! 0) = Unhandled"
    using undef by (simp_all del: step.simps)
  show ?thesis
    unfolding f(1) u(1) using f(2,3) u(2-5) committing_state(5) by simp
qed

section \<open>The run without patches\<close>

text \<open>
  C6. The read has succeeded and the accessor returns nothing: the chain ends fulfilled
  (the \<^verbatim>\<open>ECANCEL\<close> rejection is absorbed), the run logs the abort with
  \<^verbatim>\<open>console.info\<close> and closes its group, the recheck finds no patches either and
  deletes the key from the registry; and neither at this step nor ever after does the run
  dispatch the reset, write the resource or log an error.
\<close>

theorem no_patches_short_circuit:
  fixes s :: state and r :: nat and now :: int and c :: content
  assumes "s = exec init es0" and "waiting s r Await_read" and "pending_patches s r = None"
  defines "s' \<equiv> step s (now, Read_settled r (Inr c))"
  shows "fst (resume_read now r (Fulfilled c) s) = Fulfilled ()
     \<and> trace s' = trace s @ [(r, Console_info ''No patches for resource, abort''), (r, Console_groupEnd)]
     \<and> r_stage (runs s' ! r) = Settled
     \<and> transactions s' (getKey (run_tab s r) (run_url s r)) = None
     \<and> (\<forall>es. \<forall>e\<in>set (run_effects (exec s' es) r). \<not> is_commit e \<and> \<not> is_error e)"
proof -
  have r: "r < length (runs s)" and st: "r_stage (runs s ! r) = Await_read"
    using assms(2) by (simp_all add: waiting_def)
  let ?s1 = "emit r (Console_info ''No patches for resource, abort'')
               (upd_run r (\<lambda>x. x\<lparr>r_snapshot := None\<rparr>) s)"
  have eq: "resume_read now r (Fulfilled c) s = on_complete now r () ?s1"
    using r assms(3) by (simp add: resume_read_no_patches run_defs)
  have s': "s' = snd (on_complete now r () ?s1)"
    using assms(2) by (simp add: s'_def eq)
  have r1: "r < length (runs ?s1)" using r by simp
  have p1: "pending_patches ?s1 r = None" using r assms(3) by (simp add: run_defs)
  note sum = on_complete_summary [OF r1, of now "()"]
  have tr: "trace s' = trace s @ [(r, Console_info ''No patches for resource, abort''), (r, Console_groupEnd)]"
    using sum(1) p1 by (simp add: s')
  have stage: "r_stage (runs s' ! r) = Settled" using sum(2) by (simp add: s')
  have reg: "transactions s' (getKey (run_tab s r) (run_url s r)) = None"
    using sum(3) [OF p1] r by (simp add: s' run_defs)
  have len: "r < length (runs s')" using r by (simp add: s')
  have old: "\<forall>e\<in>set (run_effects s r). \<not> is_commit e \<and> \<not> is_error e"
    using reachable_unspoilt [of es0] r st unfolding assms(1) [symmetric]
    by (intro unspoiltD) simp_all
  have "run_effects s' r = run_effects s r @ [Console_info ''No patches for resource, abort'', Console_groupEnd]"
    using tr by (simp add: run_effects_def)
  with old have "\<forall>e\<in>set (run_effects s' r). \<not> is_commit e \<and> \<not> is_error e" by simp
  then have "\<forall>es. \<forall>e\<in>set (run_effects (exec s' es) r). \<not> is_commit e \<and> \<not> is_error e"
    using settled_forever [OF len stage] by blast
  then show ?thesis using eq tr stage reg by simp
qed

theorem no_patches_short_circuit_witness:
  "waiting (exec init no_session) 0 Await_read
   \<and> trace (step (exec init no_session) (1200, Read_settled 0 (Inr ''body{}''))) =
        trace (exec init no_session) @
          [(0, Console_info ''No patches for resource, abort''), (0, Console_groupEnd)]
   \<and> transactions (exec init no_session) ''1+a.css'' = Some 0
   \<and> transactions (step (exec init no_session) (1200, Read_settled 0 (Inr ''body{}'')))
        ''1+a.css'' = None"
proof -
  from no_patches_short_circuit [OF refl no_session_state(1,2), of 1200 "''body{}''"]
  show ?thesis
    by (simp add: no_session_state demo_key)
qed

section \<open>The staleness guard\<close>

text \<open>
  C4. \<^verbatim>\<open>applyPatch\<close> has answered and the accessor now returns something else than
  the snapshot taken before (another snapshot, or nothing): the chain ends fulfilled, the
  run never dispatches the reset, never writes and never logs an error; and the recheck
  calls the handle again, with the \<^verbatim>\<open>applyPatch\<close> of the run, exactly when it finds
  patches pending: otherwise it deletes the key and leaves handles and timers alone.
\<close>

theorem staleness_guard:
  fixes s :: state and r :: nat and now :: int and resp :: response
  assumes "s = exec init es0" and "waiting s r Await_race"
    and "pending_patches s r \<noteq> r_snapshot (runs s ! r)"
  defines "s' \<equiv> step s (now, Apply_settled r (Inr resp))"
  shows "fst (resume_race now r (Fulfilled resp) s) = Fulfilled ()
     \<and> r_stage (runs s' ! r) = Settled
     \<and> (\<forall>es. \<forall>e\<in>set (run_effects (exec s' es) r). \<not> is_commit e \<and> \<not> is_error e)
     \<and> (pending_patches s r \<noteq> None \<longrightarrow>
          transactions s' = transactions s
          \<and> args (handles s' (r_handle (runs s ! r))) = r_applyPatch (runs s ! r)
          \<and> timestamp (handles s' (r_handle (runs s ! r))) = Some now
          \<and> timeout (handles s' (r_handle (runs s ! r))) \<noteq> None)
     \<and> (pending_patches s r = None \<longrightarrow>
          transactions s' = (transactions s)(getKey (run_tab s r) (run_url s r) := None)
          \<and> handles s' = handles s \<and> timers s' = timers s)"
proof -
  have r: "r < length (runs s)" and st: "r_stage (runs s ! r) = Await_race"
    using assms(2) by (simp_all add: waiting_def)
  let ?a = "emit r (Console_info ''Resource patched, try to update content'') s"
  let ?b = "emit r (Console_info ''Session destroyed when patching resource, abort'') ?a"
  let ?s1 = "if pending_patches s r = None then ?b else ?a"
  have eq: "resume_race now r (Fulfilled resp) s = on_complete now r () ?s1"
  proof (cases "pending_patches s r")
    case None
    then show ?thesis using r by (simp add: resume_race_destroyed run_defs)
  next
    case (Some cur)
    then show ?thesis using r assms(3) by (simp add: resume_race_stale run_defs)
  qed
  have s': "s' = snd (on_complete now r () ?s1)"
    using assms(2) by (simp add: s'_def eq)
  have r1: "r < length (runs ?s1)" using r by simp
  have p1: "pending_patches ?s1 r = pending_patches s r" by (simp add: run_defs)
  have same: "transactions ?s1 = transactions s" "handles ?s1 = handles s" "timers ?s1 = timers s"
    "runs ?s1 = runs s" "run_tab ?s1 r = run_tab s r" "run_url ?s1 r = run_url s r"
    by (simp_all add: run_defs)
  note sum = on_complete_summary [OF r1, of now "()", unfolded p1 same]
  have stage: "r_stage (runs s' ! r) = Settled" using sum(2) by (simp add: s')
  have len: "r < length (runs s')" using r by (simp add: s')
  have old: "\<forall>e\<in>set (run_effects s r). \<not> is_commit e \<and> \<not> is_error e"
    using reachable_unspoilt [of es0] r st unfolding assms(1) [symmetric]
    by (intro unspoiltD) simp_all
  have "\<exists>v. run_effects s' r = run_effects s r @ v \<and> (\<forall>e\<in>set v. \<not> is_commit e \<and> \<not> is_error e)"
    using sum(1) unfolding s' [symmetric]
    by (auto simp add: run_effects_def split: option.splits)
  with old have "\<forall>e\<in>set (run_effects s' r). \<not> is_commit e \<and> \<not> is_error e" by auto
  then have ever: "\<forall>es. \<forall>e\<in>set (run_effects (exec s' es) r). \<not> is_commit e \<and> \<not> is_error e"
    using settled_forever [OF len stage] by blast
  have restart: "pending_patches s r \<noteq> None \<longrightarrow>
          transactions s' = transactions s
          \<and> args (handles s' (r_handle (runs s ! r))) = r_applyPatch (runs s ! r)
          \<and> timestamp (handles s' (r_handle (runs s ! r))) = Some now
          \<and> timeout (handles s' (r_handle (runs s ! r))) \<noteq> None"
    using sum(4) unfolding s' [symmetric] by blast
  have gone: "pending_patches s r = None \<longrightarrow>
          transactions s' = (transactions s)(getKey (run_tab s r) (run_url s r) := None)
          \<and> handles s' = handles s \<and> timers s' = timers s"
    using sum(3) unfolding s' [symmetric] by blast
  have "fst (resume_race now r (Fulfilled resp) s) = Fulfilled ()"
    by (simp add: eq)
  with stage ever restart gone show ?thesis by blast
qed

theorem staleness_guard_witness:
  "waiting (exec init edited) 0 Await_race
   \<and> pending_patches (exec init edited) 0 = Some 8
   \<and> r_snapshot (runs (exec init edited) ! 0) = Some 7
   \<and> r_stage (runs (step (exec init edited) (1300, Apply_settled 0 (Inr \<lparr>content = ''x''\<rparr>))) ! 0)
        = Settled
   \<and> args (handles (step (exec init edited) (1300, Apply_settled 0 (Inr \<lparr>content = ''x''\<rparr>))) 0)
        = Some 5
   \<and> timestamp (handles (step (exec init edited) (1300, Apply_settled 0 (Inr \<lparr>content = ''x''\<rparr>))) 0)
        = Some 1300"
proof -
  have ne: "pending_patches (exec init edited) 0 \<noteq> r_snapshot (runs (exec init edited) ! 0)"
    by (simp add: edited_state)
  from staleness_guard [OF refl edited_state(1) ne, of 1300 "\<lparr>content = ''x''\<rparr>"]
  show ?thesis
    by (simp add: edited_state)
qed

section \<open>The race with the timeout\<close>

text \<open>
  C5, as the code has it. When the content is there and patches are pending, the run
  calls \<^verbatim>\<open>applyPatch\<close> and sets a timer due 10000 later whose callback rejects the race
  with code \<^verbatim>\<open>ETIMEOUT\<close>. The callback never runs before the timer is due. When it
  runs while the race is still open, the run logs the timeout error and goes to the
  completion recheck; from then on a settlement of \<^verbatim>\<open>applyPatch\<close> changes nothing, and
  the run never dispatches the reset nor writes. As long as the callback has not run,
  the race is open: a settlement of \<^verbatim>\<open>applyPatch\<close> is taken at whatever time it
  arrives, the time the timer was due at plays no part.
\<close>

theorem timeout_precedence:
  fixes s :: state and r tid :: nat and now :: int and tm :: timer
  assumes "s = exec init es0" and "waiting s r Await_race"
    and "find (\<lambda>x. t_id x = tid) (timers s) = Some tm" and "t_cb tm = Reject_on_timeout r"
    and "t_due tm \<le> now"
  defines "s' \<equiv> step s (now, Fire tid)"
  shows "err_code timeout_error = Some ''ETIMEOUT''
     \<and> trace s' = trace s @ (r, Console_error timeout_error) # (r, Console_groupEnd) #
          (case pending_patches s r of None \<Rightarrow> []
           | Some p \<Rightarrow> [(r, Console_info ''Pending patches, restart transaction for'')])
     \<and> r_stage (runs s' ! r) = Settled
     \<and> (\<forall>t p. step s' (t, Apply_settled r p) = s')
     \<and> (\<forall>es. \<forall>e\<in>set (run_effects (exec s' es) r). \<not> is_commit e)
     \<and> (\<forall>t. t < t_due tm \<longrightarrow> step s (t, Fire tid) = s)
     \<and> (\<forall>s0 t0 c f sn. waiting s0 r Await_read \<and> pending_patches s0 r = Some sn
            \<and> r_applyPatch (runs s0 ! r) = Some f \<longrightarrow>
          waiting (step s0 (t0, Read_settled r (Inr c))) r Await_race
          \<and> trace (step s0 (t0, Read_settled r (Inr c))) = trace s0 @ [(r, Apply_patch f c sn)]
          \<and> timers (step s0 (t0, Read_settled r (Inr c))) =
              timers s0 @ [\<lparr>t_id = next_timer s0, t_due = t0 + 10000, t_cb = Reject_on_timeout r\<rparr>])
     \<and> (\<forall>t p. step s (t, Apply_settled r p) = snd (resume_race t r (settled p) s))"
proof -
  have r: "r < length (runs s)" and st: "r_stage (runs s ! r) = Await_race"
    using assms(2) by (simp_all add: waiting_def)
  have code: "err_code timeout_error = Some ''ETIMEOUT''"
    by (simp add: timeout_error_def error_def)
  then have ne: "err_code timeout_error \<noteq> Some ''ECANCEL''" by simp
  let ?res = "resume_race now r (Rejected (Object timeout_error)) (s\<lparr>timers := remove1 tm (timers s)\<rparr>)"
  note abs = rejection_absorbed [OF ne, of "Fire tid" r s ?res now tid tm]
  have hyp: "Fire tid = Fire tid \<and> find (\<lambda>x. t_id x = tid) (timers s) = Some tm \<and> t_due tm \<le> now
            \<and> t_cb tm = Reject_on_timeout r \<and> timeout_error = timeout_error \<and> waiting s r Await_race
            \<and> ?res = ?res"
    using assms(2-5) by simp
  have s': "s' = snd ?res" and tr: "trace (snd ?res) = trace s @ (r, Console_error timeout_error) # (r, Console_groupEnd) #
          (case pending_patches s r of None \<Rightarrow> []
           | Some p \<Rightarrow> [(r, Console_info ''Pending patches, restart transaction for'')])"
    and stage: "r_stage (runs (snd ?res) ! r) = Settled"
    using abs hyp unfolding s'_def by blast+
  have len: "r < length (runs s')"
    using r ne by (simp add: s' resume_race_rejected resume_rejected)
  have late: "\<forall>t p. step s' (t, Apply_settled r p) = s'"
    using stage by (simp add: s' waiting_def)
  have old: "\<forall>e\<in>set (run_effects s r). \<not> is_commit e \<and> \<not> is_error e"
    using reachable_unspoilt [of es0] r st unfolding assms(1) [symmetric]
    by (intro unspoiltD) simp_all
  have "\<exists>v. run_effects s' r = run_effects s r @ v \<and> (\<forall>e\<in>set v. \<not> is_commit e)"
    using tr unfolding s' [symmetric]
    by (auto simp add: run_effects_def split: option.splits)
  with old have "\<forall>e\<in>set (run_effects s' r). \<not> is_commit e" by auto
  then have ever: "\<forall>es. \<forall>e\<in>set (run_effects (exec s' es) r). \<not> is_commit e"
    using settled_forever [OF len] stage unfolding s' [symmetric] by blast
  have early: "\<forall>t. t < t_due tm \<longrightarrow> step s (t, Fire tid) = s"
    using assms(3) by simp
  have armed: "waiting (step s0 (t0, Read_settled r (Inr c))) r Await_race
          \<and> trace (step s0 (t0, Read_settled r (Inr c))) = trace s0 @ [(r, Apply_patch f c sn)]
          \<and> timers (step s0 (t0, Read_settled r (Inr c))) =
              timers s0 @ [\<lparr>t_id = next_timer s0, t_due = t0 + 10000, t_cb = Reject_on_timeout r\<rparr>]"
    if "waiting s0 r Await_read" "pending_patches s0 r = Some sn" "r_applyPatch (runs s0 ! r) = Some f"
    for s0 t0 c f sn
    using that by (simp add: waiting_def resume_read_apply run_defs)
  have open_race: "\<forall>t p. step s (t, Apply_settled r p) = snd (resume_race t r (settled p) s)"
    using assms(2) by simp
  from code tr stage late ever early armed open_race show ?thesis
    unfolding s' [symmetric] by blast
qed

theorem timeout_precedence_witness:
  "waiting (exec init applying) 0 Await_race
   \<and> timers (exec init applying) = [race_timer]
   \<and> t_due race_timer = 1200 + 10000
   \<and> trace (step (exec init applying) (11200, Fire 1)) =
        trace (exec init applying) @
          [(0, Console_error timeout_error), (0, Console_groupEnd),
           (0, Console_info ''Pending patches, restart transaction for'')]
   \<and> step (step (exec init applying) (11200, Fire 1))
        (11300, Apply_settled 0 (Inr \<lparr>content = ''x''\<rparr>)) =
       step (exec init applying) (11200, Fire 1)"
proof -
  have f: "find (\<lambda>x. t_id x = 1) (timers (exec init applying)) = Some race_timer"
    by (simp add: applying_state race_timer_def)
  have cb: "t_cb race_timer = Reject_on_timeout 0" and due: "t_due race_timer \<le> 11200"
    by (simp_all add: race_timer_def)
  from timeout_precedence [OF refl applying_state(1) f cb due]
  show ?thesis
    by (simp add: applying_state race_timer_def)
qed

text \<open>
  C5, as the spec states it, fails: in the scenario \<open>late_answer\<close> the race is still
  open when the timer is due at 11200 (\<^verbatim>\<open>applyPatch\<close> has not settled), the answer of
  11250 is taken, the run dispatches the reset and writes, and the timer callback of 11300
  finds the race closed: no \<^verbatim>\<open>ETIMEOUT\<close> error is ever logged.
\<close>

theorem late_answer_commits:
  "waiting (exec init applying) 0 Await_race
   \<and> timers (exec init applying) = [race_timer]
   \<and> t_due race_timer = 11200
   \<and> trace (exec init late_answer) =
        trace (exec init applying) @
          [(0, Console_info ''Resource patched, try to update content''),
           (0, Dispatch (Reset_resource_patches ''a.css'' 1)),
           (0, Devtools_update 1 ''a.css'' ''x'')]
   \<and> filter is_error (run_effects (exec init late_answer) 0) = []
   \<and> map r_stage (runs (exec init late_answer)) = [Await_write]
   \<and> timers (exec init late_answer) = []"
  by (simp add: run_effects_def scenario_defs model_defs)

section \<open>The commit\<close>

text \<open>
  C10. \<^verbatim>\<open>applyPatch\<close> has answered and the snapshot is unchanged: the run dispatches
  the reset of the backlog and then calls the write, in this order, and the accessor
  returns nothing from then on. When the write fails, the store is left as it is (no
  settlement of a write ever changes the store): the backlog stays cleared, no further
  dispatch is made, and the recheck, finding no patches, deletes the key.
\<close>

theorem dispatch_before_write:
  fixes s :: state and r :: nat and now t :: int and resp :: response and err :: js_error
  assumes "waiting s r Await_race" and "pending_patches s r = Some sn"
    and "r_snapshot (runs s ! r) = Some sn"
  defines "s1 \<equiv> step s (now, Apply_settled r (Inr resp))"
    and "s2 \<equiv> step (step s (now, Apply_settled r (Inr resp)))
                 (t, Write_settled r (Inl (Object err)))"
  shows "trace s1 = trace s @
          [(r, Console_info ''Resource patched, try to update content''),
           (r, Dispatch (Reset_resource_patches (run_url s r) (run_tab s r))),
           (r, Devtools_update (run_tab s r) (run_url s r) (content resp))]
     \<and> waiting s1 r Await_write
     \<and> pending_patches s1 r = None
     \<and> store s2 = store s1
     \<and> pending_patches s2 r = None
     \<and> filter (is_commit \<circ> snd) (trace s2) = filter (is_commit \<circ> snd) (trace s1)
     \<and> r_stage (runs s2 ! r) = Settled
     \<and> transactions s2 (getKey (run_tab s r) (run_url s r)) = None
     \<and> (\<forall>x t' r' p. store (step x (t', Write_settled r' p)) = store x)
     \<and> (\<forall>e. pending_patches (step s1 (t, Write_settled r (Inl e))) r = None
            \<and> filter (is_commit \<circ> snd) (trace (step s1 (t, Write_settled r (Inl e)))) =
                filter (is_commit \<circ> snd) (trace s1))"
proof -
  have r: "r < length (runs s)" and st: "r_stage (runs s ! r) = Await_race"
    using assms(1) by (simp_all add: waiting_def)
  let ?c = "upd_run r (\<lambda>x. x\<lparr>r_stage := Await_write\<rparr>)
        (emit r (Devtools_update (run_tab s r) (run_url s r) (content resp))
           (dispatch r (Reset_resource_patches (run_url s r) (run_tab s r))
              (emit r (Console_info ''Resource patched, try to update content'') s)))"
  have s1: "s1 = ?c"
    using assms(1) r assms(2,3) by (simp add: s1_def resume_race_commit run_defs)
  have tr1: "trace s1 = trace s @
          [(r, Console_info ''Resource patched, try to update content''),
           (r, Dispatch (Reset_resource_patches (run_url s r) (run_tab s r))),
           (r, Devtools_update (run_tab s r) (run_url s r) (content resp))]"
    by (simp add: s1)
  have w1: "waiting s1 r Await_write" using r by (simp add: s1 waiting_def)
  have tab1: "run_tab s1 r = run_tab s r" "run_url s1 r = run_url s r"
    using r by (simp_all add: s1 run_defs)
  have p1: "pending_patches s1 r = None"
    using r by (simp add: s1 run_defs getResourcePatches_reset del: reducer.simps)
  have r1: "r < length (runs s1)" using r by (simp add: s1)
  have obj: "store (step s1 (t, Write_settled r (Inl (Object e)))) = store s1
     \<and> pending_patches (step s1 (t, Write_settled r (Inl (Object e)))) r = None
     \<and> filter (is_commit \<circ> snd) (trace (step s1 (t, Write_settled r (Inl (Object e))))) =
         filter (is_commit \<circ> snd) (trace s1)
     \<and> r_stage (runs (step s1 (t, Write_settled r (Inl (Object e)))) ! r) = Settled
     \<and> transactions (step s1 (t, Write_settled r (Inl (Object e))))
         (getKey (run_tab s r) (run_url s r)) = None" for e
  proof -
    let ?s2 = "step s1 (t, Write_settled r (Inl (Object e)))"
    let ?e = "if err_code e = Some ''ECANCEL'' then s1 else emit r (Console_error e) s1"
    have s2: "?s2 = snd (on_complete t r () ?e)"
      using w1 by (simp add: resume_rejected)
    have re: "r < length (runs ?e)" using r1 by simp
    have pe: "pending_patches ?e r = None" using p1 by (simp add: run_defs)
    have tabe: "run_tab ?e r = run_tab s r" "run_url ?e r = run_url s r"
      using tab1 by (simp_all add: run_defs)
    note sum = on_complete_summary [OF re, of t "()", unfolded pe tabe]
    have store2: "store ?s2 = store s1" unfolding s2 by simp
    have "handles ?s2 = handles s1"
      "runs ?s2 = (runs s1)[r := (runs s1 ! r)\<lparr>r_snapshot := None, r_stage := Settled\<rparr>]"
      unfolding s2 using sum(3) by simp_all
    then have p2: "pending_patches ?s2 r = None"
      using p1 r1 store2 by (simp add: run_defs del: step.simps)
    have tr2: "filter (is_commit \<circ> snd) (trace ?s2) = filter (is_commit \<circ> snd) (trace s1)"
      unfolding s2 using sum(1) by simp
    have st2: "r_stage (runs ?s2 ! r) = Settled" unfolding s2 using sum(2) by simp
    have reg2: "transactions ?s2 (getKey (run_tab s r) (run_url s r)) = None"
      unfolding s2 using sum(3) by simp
    from store2 p2 tr2 st2 reg2 show ?thesis by blast
  qed
  have null: "pending_patches (step s1 (t, Write_settled r (Inl e))) r = None
     \<and> filter (is_commit \<circ> snd) (trace (step s1 (t, Write_settled r (Inl e)))) =
         filter (is_commit \<circ> snd) (trace s1)" if "nullish e" for e
  proof -
    have "step s1 (t, Write_settled r (Inl e)) = upd_run r (\<lambda>x. x\<lparr>r_stage := Unhandled\<rparr>) s1"
      using w1 that by (simp add: resume_write_nullish)
    then show ?thesis using p1 r1 by (simp add: run_defs del: step.simps)
  qed
  have every: "pending_patches (step s1 (t, Write_settled r (Inl e))) r = None
     \<and> filter (is_commit \<circ> snd) (trace (step s1 (t, Write_settled r (Inl e)))) =
         filter (is_commit \<circ> snd) (trace s1)" for e
  proof (cases "nullish e")
    case True
    then show ?thesis by (rule null)
  next
    case False
    then obtain e' where "e = Object e'" by (cases e) simp_all
    with obj [of e'] show ?thesis by blast
  qed
  have s2: "s2 = step s1 (t, Write_settled r (Inl (Object err)))"
    by (simp add: s2_def s1_def)
  from tr1 w1 p1 obj [of err] write_settled_store every show ?thesis
    unfolding s2 by blast
qed

theorem dispatch_before_write_witness:
  "waiting (exec init applying) 0 Await_race
   \<and> pending_patches (exec init applying) 0 = Some 7
   \<and> trace (step (exec init applying) (1300, Apply_settled 0 (Inr \<lparr>content = ''x''\<rparr>))) =
        trace (exec init applying) @
          [(0, Console_info ''Resource patched, try to update content''),
           (0, Dispatch (Reset_resource_patches ''a.css'' 1)),
           (0, Devtools_update 1 ''a.css'' ''x'')]
   \<and> pending_patches
        (step (step (exec init applying) (1300, Apply_settled 0 (Inr \<lparr>content = ''x''\<rparr>)))
           (1400, Write_settled 0 (Inl (Object disk_full)))) 0 = None"
  using dispatch_before_write [OF applying_state(1,2,3), of 1300 "\<lparr>content = ''x''\<rparr>" 1400 disk_full]
  by (simp add: applying_state del: step.simps)

section \<open>One debounce timer per handle\<close>

lemma well_timed_init: "well_timed init"
  by (simp add: well_timed_def debounce_timers_def init_def fresh_def)

lemma well_timedD:
  assumes "well_timed s"
  shows "length (debounce_timers s h) = (if timeout (handles s h) = None then 0 else 1)"
    and "next_handle s \<le> h \<Longrightarrow> timeout (handles s h) = None"
    and "transactions s k = Some h \<Longrightarrow> h < next_handle s"
    and "r < length (runs s) \<Longrightarrow> r_handle (runs s ! r) < next_handle s"
  using assms unfolding well_timed_def by blast+

lemma well_timedI:
  assumes "\<And>h. length (debounce_timers s h) = (if timeout (handles s h) = None then 0 else 1)"
    and "\<And>h. next_handle s \<le> h \<Longrightarrow> timeout (handles s h) = None"
    and "\<And>k h. transactions s k = Some h \<Longrightarrow> h < next_handle s"
    and "\<And>r. r < length (runs s) \<Longrightarrow> r_handle (runs s ! r) < next_handle s"
  shows "well_timed s"
  using assms unfolding well_timed_def by blast

lemma debounce_timers_call:
  "debounce_timers (transaction_call now h a s) h' =
     (if h' = h \<and> timeout (handles s h) = None
      then debounce_timers s h @ [\<lparr>t_id = next_timer s, t_due = now + updateDebounce, t_cb = Later h\<rparr>]
      else debounce_timers s h')"
  by (simp add: debounce_timers_def transaction_call_timers split: option.splits)

lemma well_timed_transaction_call:
  assumes "well_timed s" "h < next_handle s"
  shows "well_timed (transaction_call now h a s)"
proof (rule well_timedI)
  fix h'
  show "length (debounce_timers (transaction_call now h a s) h') =
      (if timeout (handles (transaction_call now h a s) h') = None then 0 else 1)"
    using well_timedD(1) [OF assms(1), of h'] well_timedD(1) [OF assms(1), of h]
    by (auto simp add: debounce_timers_call transaction_call_handles split: option.splits if_splits)
next
  fix h' assume "next_handle (transaction_call now h a s) \<le> h'"
  then show "timeout (handles (transaction_call now h a s) h') = None"
    using well_timedD(2) [OF assms(1), of h'] assms(2)
    by (simp add: transaction_call_handles)
next
  fix k h' assume "transactions (transaction_call now h a s) k = Some h'"
  then show "h' < next_handle (transaction_call now h a s)"
    using well_timedD(3) [OF assms(1), of k h'] by simp
next
  fix r assume "r < length (runs (transaction_call now h a s))"
  then show "r_handle (runs (transaction_call now h a s) ! r) < next_handle (transaction_call now h a s)"
    using well_timedD(4) [OF assms(1), of r] by simp
qed

lemma well_timed_delete:
  assumes "well_timed s"
  shows "well_timed (s\<lparr>transactions := (transactions s)(k := None)\<rparr>)"
  using assms by (simp add: well_timed_def debounce_timers_def)

lemma debounce_timers_frame [simp]:
  "debounce_timers (emit r e s) h = debounce_timers s h"
  "debounce_timers (upd_run r f s) h = debounce_timers s h"
  "debounce_timers (dispatch r a s) h = debounce_timers s h"
  "debounce_timers (rejectOnTimeout r d now s) h = debounce_timers s h"
  by (simp_all add: debounce_timers_def)

lemma well_timed_frame [simp]:
  "well_timed (emit r e s) = well_timed s"
  "well_timed (dispatch r a s) = well_timed s"
  "well_timed (rejectOnTimeout r d now s) = well_timed s"
  by (simp_all add: well_timed_def)

lemma r_handle_list_update:
  assumes "\<And>x. r_handle (f x) = r_handle x"
  shows "r_handle (xs[r := f (xs ! r)] ! i) = r_handle (xs ! i)"
  using assms by (cases "r < length xs") (simp_all add: nth_list_update list_update_beyond)

lemma well_timed_upd_run:
  assumes "\<And>x. r_handle (f x) = r_handle x"
  shows "well_timed (upd_run r f s) = well_timed s"
  using assms by (simp add: well_timed_def r_handle_list_update)

lemma well_timed_on_complete:
  assumes "well_timed s" "r < length (runs s)"
  shows "well_timed (snd (on_complete now r u s))"
proof (cases "pending_patches s r")
  case None
  let ?s0 = "emit r Console_groupEnd (upd_run r (\<lambda>x. x\<lparr>r_snapshot := None, r_stage := Settled\<rparr>) s)"
  have "well_timed ?s0" using assms(1) by (simp add: well_timed_upd_run)
  then have "well_timed (?s0\<lparr>transactions := (transactions ?s0)(getKey (run_tab s r) (run_url s r) := None)\<rparr>)"
    by (rule well_timed_delete)
  then show ?thesis
    using None assms(2) on_complete_done [of r s now u]
    by (simp add: run_defs)
next
  case (Some p)
  let ?s1 = "emit r (Console_info ''Pending patches, restart transaction for'')
         (emit r Console_groupEnd (upd_run r (\<lambda>x. x\<lparr>r_snapshot := None, r_stage := Settled\<rparr>) s))"
  have "well_timed ?s1" using assms(1) by (simp add: well_timed_upd_run)
  moreover have "r_handle (runs s ! r) < next_handle ?s1"
    using well_timedD(4) [OF assms] by simp
  ultimately have "well_timed (transaction_call now (r_handle (runs s ! r)) (r_applyPatch (runs s ! r)) ?s1)"
    by (rule well_timed_transaction_call)
  then show ?thesis
    using Some assms(2) on_complete_restart [of r s p now u] by (simp add: run_defs)
qed

lemma well_timed_resume_write:
  assumes "well_timed s" "r < length (runs s)"
  shows "well_timed (snd (resume_write now r p s))"
proof (cases p)
  case Pending
  with assms show ?thesis by simp
next
  case (Fulfilled v)
  with assms show ?thesis by (simp add: resume_write_fulfilled well_timed_on_complete)
next
  case (Rejected e)
  with assms show ?thesis
    by (cases e) (simp_all add: resume_rejected resume_write_nullish well_timed_on_complete
        well_timed_upd_run)
qed

lemma well_timed_resume_race:
  assumes "well_timed s" "r < length (runs s)"
  shows "well_timed (snd (resume_race now r p s))"
proof (cases p)
  case Pending
  with assms show ?thesis by simp
next
  case (Rejected e)
  with assms show ?thesis by (simp add: resume_race_rejected well_timed_resume_write)
next
  case (Fulfilled resp)
  show ?thesis
  proof (cases "pending_patches s r")
    case None
    then show ?thesis using assms unfolding Fulfilled
      by (simp add: resume_race_destroyed run_defs well_timed_on_complete)
  next
    case (Some cur)
    show ?thesis
    proof (cases "r_snapshot (runs s ! r) = Some cur")
      case True
      then show ?thesis using assms Some unfolding Fulfilled
        by (simp add: resume_race_commit run_defs well_timed_upd_run)
    next
      case False
      then show ?thesis using assms Some unfolding Fulfilled
        by (simp add: resume_race_stale run_defs well_timed_on_complete)
    qed
  qed
qed

lemma well_timed_resume_read:
  assumes "well_timed s" "r < length (runs s)"
  shows "well_timed (snd (resume_read now r p s))"
proof (cases p)
  case Pending
  with assms show ?thesis by simp
next
  case (Rejected e)
  with assms show ?thesis by (simp add: resume_read_rejected well_timed_resume_write)
next
  case (Fulfilled c)
  show ?thesis
  proof (cases "pending_patches s r")
    case None
    then show ?thesis using assms unfolding Fulfilled
      by (simp add: resume_read_no_patches run_defs well_timed_on_complete well_timed_upd_run)
  next
    case (Some sn)
    show ?thesis
    proof (cases "r_applyPatch (runs s ! r)")
      case None
      then show ?thesis using assms Some unfolding Fulfilled
        by (simp add: resume_read_not_callable run_defs well_timed_on_complete well_timed_upd_run)
    next
      case (Some f)
      then show ?thesis using assms \<open>pending_patches s r = Some sn\<close> unfolding Fulfilled
        by (simp add: resume_read_apply run_defs well_timed_upd_run)
    qed
  qed
qed

lemma debounce_timers_remove:
  assumes "well_timed s" "tm \<in> set (timers s)" "t_cb tm = Later h"
  shows "debounce_timers (s\<lparr>timers := remove1 tm (timers s)\<rparr>) h' =
           (if h' = h then [] else debounce_timers s h')"
    and "timeout (handles s h) \<noteq> None" and "h < next_handle s"
proof -
  have mem: "tm \<in> set (debounce_timers s h)"
    using assms(2,3) by (simp add: debounce_timers_def)
  then have pos: "0 < length (debounce_timers s h)"
    by (cases "debounce_timers s h") auto
  with well_timedD(1) [OF assms(1), of h] show t: "timeout (handles s h) \<noteq> None"
    by (auto split: if_splits)
  with well_timedD(2) [OF assms(1), of h] show "h < next_handle s"
    by (cases "h < next_handle s") auto
  from t well_timedD(1) [OF assms(1), of h] have "length (debounce_timers s h) = 1"
    by simp
  with mem have one: "debounce_timers s h = [tm]"
    by (cases "debounce_timers s h") auto
  have rm: "debounce_timers (s\<lparr>timers := remove1 tm (timers s)\<rparr>) h' = remove1 tm (debounce_timers s h')"
    by (simp add: debounce_timers_def filter_remove1)
  show "debounce_timers (s\<lparr>timers := remove1 tm (timers s)\<rparr>) h' =
           (if h' = h then [] else debounce_timers s h')"
  proof (cases "h' = h")
    case True
    with one rm show ?thesis by simp
  next
    case False
    with assms(3) have "tm \<notin> set (debounce_timers s h')"
      by (simp add: debounce_timers_def)
    with False rm show ?thesis by (simp add: remove1_idem)
  qed
qed

lemma well_timed_later:
  assumes "well_timed s" "tm \<in> set (timers s)" "t_cb tm = Later h"
  shows "well_timed (later func updateDebounce False now h (s\<lparr>timers := remove1 tm (timers s)\<rparr>))"
proof -
  let ?s1 = "s\<lparr>timers := remove1 tm (timers s)\<rparr>"
  note rm = debounce_timers_remove [OF assms]
  have cnt: "debounce_timers ?s1 h' = (if h' = h then [] else debounce_timers s h')" for h'
    by (rule rm(1))
  have tm1: "filter (\<lambda>x. t_cb x = Later h') (remove1 tm (timers s)) =
      (if h' = h then [] else debounce_timers s h')" for h'
    using cnt [of h'] by (simp add: debounce_timers_def)
  show ?thesis
  proof (rule well_timedI)
    fix h'
    show "length (debounce_timers (later func updateDebounce False now h ?s1) h') =
      (if timeout (handles (later func updateDebounce False now h ?s1) h') = None then 0 else 1)"
      using well_timedD(1) [OF assms(1), of h']
      by (auto simp add: later_def debounce_timers_def tm1 Let_def split_def split: option.splits if_splits)
  next
    fix h' assume "next_handle (later func updateDebounce False now h ?s1) \<le> h'"
    then show "timeout (handles (later func updateDebounce False now h ?s1) h') = None"
      using well_timedD(2) [OF assms(1), of h'] rm(3)
      by (auto simp add: later_def Let_def split_def split: option.splits if_splits)
  next
    fix k h' assume "transactions (later func updateDebounce False now h ?s1) k = Some h'"
    then show "h' < next_handle (later func updateDebounce False now h ?s1)"
      using well_timedD(3) [OF assms(1), of k h']
      by (auto simp add: later_def Let_def split_def split: option.splits if_splits)
  next
    fix r assume "r < length (runs (later func updateDebounce False now h ?s1))"
    then show "r_handle (runs (later func updateDebounce False now h ?s1) ! r)
        < next_handle (later func updateDebounce False now h ?s1)"
      using well_timedD(4) [OF assms(1), of r] rm(3)
      by (auto simp add: later_def Let_def split_def nth_append split: option.splits if_splits)
  qed
qed

lemma well_timed_createTransaction:
  assumes "well_timed s"
  shows "well_timed (createTransaction tab url s)"
proof (rule well_timedI)
  fix h
  show "length (debounce_timers (createTransaction tab url s) h) =
      (if timeout (handles (createTransaction tab url s) h) = None then 0 else 1)"
    using well_timedD(1) [OF assms, of h] well_timedD(2) [OF assms, of h]
    by (auto simp add: createTransaction_def debounce_timers_def split: if_splits)
next
  fix h assume "next_handle (createTransaction tab url s) \<le> h"
  then show "timeout (handles (createTransaction tab url s) h) = None"
    using well_timedD(2) [OF assms, of h] by (simp add: createTransaction_def)
next
  fix k h assume "transactions (createTransaction tab url s) k = Some h"
  then show "h < next_handle (createTransaction tab url s)"
    using well_timedD(3) [OF assms, of k h]
    by (auto simp add: createTransaction_def split: if_splits)
next
  fix r assume "r < length (runs (createTransaction tab url s))"
  then show "r_handle (runs (createTransaction tab url s) ! r) < next_handle (createTransaction tab url s)"
    using well_timedD(4) [OF assms, of r] by (simp add: createTransaction_def)
qed

lemma well_timed_request:
  assumes "well_timed s"
  shows "well_timed (requestUpdateTransaction now tab url f s)"
proof (cases "transactions s (getKey tab url)")
  case None
  let ?s1 = "createTransaction tab url s"
  have "well_timed ?s1" using assms by (rule well_timed_createTransaction)
  moreover have "next_handle s < next_handle ?s1" by (simp add: createTransaction_def)
  ultimately have "well_timed (transaction_call now (next_handle s) (Some f) ?s1)"
    by (rule well_timed_transaction_call)
  then show ?thesis using None
    by (simp add: requestUpdateTransaction_def createTransaction_def)
next
  case (Some h)
  then have "h < next_handle s" using well_timedD(3) [OF assms] by simp
  with assms have "well_timed (transaction_call now h (Some f) s)"
    by (rule well_timed_transaction_call)
  then show ?thesis using Some by (simp add: requestUpdateTransaction_def)
qed

lemma well_timed_remove_reject:
  assumes "t_cb tm = Reject_on_timeout r"
  shows "well_timed (s\<lparr>timers := remove1 tm (timers s)\<rparr>) = well_timed s"
proof -
  have "filter (\<lambda>x. t_cb x = Later h) (remove1 tm (timers s)) = filter (\<lambda>x. t_cb x = Later h) (timers s)" for h
    using assms by (simp add: filter_remove1 remove1_idem)
  then show ?thesis by (simp add: well_timed_def debounce_timers_def)
qed

lemma well_timed_step:
  assumes "well_timed s"
  shows "well_timed (step s e)"
proof -
  obtain now ev where e: "e = (now, ev)" by (cases e)
  show ?thesis
  proof (cases ev)
    case (Request tab url f)
    with e assms show ?thesis by (simp add: well_timed_request)
  next
    case (Fire tid)
    show ?thesis
    proof (cases "find (\<lambda>tm. t_id tm = tid) (timers s)")
      case None
      with e Fire assms show ?thesis by simp
    next
      case (Some tm)
      then have mem: "tm \<in> set (timers s)" by (auto simp add: find_Some_iff)
      show ?thesis
      proof (cases "t_due tm \<le> now")
        case False
        with e Fire Some assms show ?thesis by simp
      next
        case True
        show ?thesis
        proof (cases "t_cb tm")
          case (Later h)
          from well_timed_later [OF assms mem Later, of now] show ?thesis
            using e Fire Some True Later by (simp add: fire_def)
        next
          case (Reject_on_timeout r)
          let ?s1 = "s\<lparr>timers := remove1 tm (timers s)\<rparr>"
          have w1: "well_timed ?s1" using assms by (simp add: well_timed_remove_reject [OF Reject_on_timeout])
          show ?thesis
          proof (cases "waiting s r Await_race")
            case False
            with w1 e Fire Some True Reject_on_timeout show ?thesis
              by (auto simp add: fire_def waiting_def Let_def)
          next
            case w: True
            then have "r < length (runs ?s1)" by (simp add: waiting_def)
            from well_timed_resume_race [OF w1 this, of now "Rejected (Object timeout_error)"] show ?thesis
              using e Fire Some True Reject_on_timeout w by (simp add: fire_def waiting_def Let_def)
          qed
        qed
      qed
    qed
  next
    case (Read_settled r p)
    with e assms well_timed_resume_read [of s r now "settled p"] show ?thesis
      by (simp add: waiting_def)
  next
    case (Apply_settled r p)
    with e assms well_timed_resume_race [of s r now "settled p"] show ?thesis
      by (simp add: waiting_def)
  next
    case (Write_settled r p)
    with e assms well_timed_resume_write [of s r now "settled p"] show ?thesis
      by (simp add: waiting_def)
  next
    case (Store_changed tab se)
    with e assms show ?thesis by (simp add: well_timed_def debounce_timers_def)
  qed
qed

lemma well_timed_exec: "well_timed s \<Longrightarrow> well_timed (exec s es)"
  by (induction es arbitrary: s) (simp_all add: well_timed_step del: step.simps)

lemma rearm:
  assumes "transactions s (getKey tab url) = Some h" "timeout (handles s h) \<noteq> None"
  shows "step s (now, Request tab url f) = upd_handle h (\<lambda>t. t\<lparr>args := Some f, timestamp := Some now\<rparr>) s"
  using assms
  by (auto simp add: requestUpdateTransaction_def transaction_call_def debounced_def Let_def)

text \<open>
  C1, as the code has it. In every reachable state a handle has at most one debounce
  timer pending. No request starts a run by itself: it leaves the runs and the trace as
  they are. A request for a key whose handle has its timer pending only stores the new
  \<^verbatim>\<open>applyPatch\<close> and the time of the call: no timer is added and nothing else changes.
  A request for a key whose handle has no timer pending sets one timer for that handle,
  due a quiet period (1000) later; a request for a key without a handle registers a new
  handle and sets its timer. And in any state whatever, the callback of a debounce timer
  that runs a quiet period or more after the last call of its handle starts a run with the
  stored argument: the runs that exist, suspended or not, play no part.
\<close>

theorem one_debounce_timer:
  "length (debounce_timers (exec init es) h) \<le> 1
   \<and> (transactions (exec init es) (getKey tab url) = Some h'
        \<and> timeout (handles (exec init es) h') \<noteq> None \<longrightarrow>
      step (exec init es) (now, Request tab url f) =
        upd_handle h' (\<lambda>t. t\<lparr>args := Some f, timestamp := Some now\<rparr>) (exec init es))
   \<and> runs (step (exec init es) (now, Request tab url f)) = runs (exec init es)
   \<and> trace (step (exec init es) (now, Request tab url f)) = trace (exec init es)
   \<and> (transactions (exec init es) (getKey tab url) = Some h'
        \<and> timeout (handles (exec init es) h') = None \<longrightarrow>
      timers (step (exec init es) (now, Request tab url f)) =
        timers (exec init es) @
          [\<lparr>t_id = next_timer (exec init es), t_due = now + 1000, t_cb = Later h'\<rparr>]
      \<and> transactions (step (exec init es) (now, Request tab url f)) = transactions (exec init es))
   \<and> (transactions (exec init es) (getKey tab url) = None \<longrightarrow>
      timers (step (exec init es) (now, Request tab url f)) =
        timers (exec init es) @
          [\<lparr>t_id = next_timer (exec init es), t_due = now + 1000,
            t_cb = Later (next_handle (exec init es))\<rparr>]
      \<and> transactions (step (exec init es) (now, Request tab url f)) =
          (transactions (exec init es))(getKey tab url \<mapsto> next_handle (exec init es)))
   \<and> (\<forall>x tm hx ts. t_cb tm = Later hx \<and> timestamp (handles x hx) = Some ts \<and> ts + 1000 \<le> now \<longrightarrow>
        runs (fire now tm x) =
          runs x @ [\<lparr>r_handle = hx, r_applyPatch = args (handles x hx), r_snapshot = None,
                     r_stage = Await_read, r_started = now\<rparr>])"
proof -
  let ?s = "exec init es"
  have "well_timed ?s"
    by (rule well_timed_exec [OF well_timed_init])
  from well_timedD(1) [OF this, of h] have one: "length (debounce_timers ?s h) \<le> 1"
    by (simp split: if_splits)
  have rearmed: "transactions ?s (getKey tab url) = Some h' \<and> timeout (handles ?s h') \<noteq> None \<longrightarrow>
      step ?s (now, Request tab url f) =
        upd_handle h' (\<lambda>t. t\<lparr>args := Some f, timestamp := Some now\<rparr>) ?s"
    by (simp add: rearm del: step.simps)
  have same: "runs (step ?s (now, Request tab url f)) = runs ?s"
    "trace (step ?s (now, Request tab url f)) = trace ?s"
    by simp_all
  have set_timer: "transactions ?s (getKey tab url) = Some h' \<and> timeout (handles ?s h') = None \<longrightarrow>
      timers (step ?s (now, Request tab url f)) =
        timers ?s @ [\<lparr>t_id = next_timer ?s, t_due = now + 1000, t_cb = Later h'\<rparr>]
      \<and> transactions (step ?s (now, Request tab url f)) = transactions ?s"
    by (simp add: requestUpdateTransaction_def transaction_call_timers updateDebounce_def)
  have create: "transactions ?s (getKey tab url) = None \<longrightarrow>
      timers (step ?s (now, Request tab url f)) =
        timers ?s @ [\<lparr>t_id = next_timer ?s, t_due = now + 1000, t_cb = Later (next_handle ?s)\<rparr>]
      \<and> transactions (step ?s (now, Request tab url f)) =
          (transactions ?s)(getKey tab url \<mapsto> next_handle ?s)"
    by (simp add: requestUpdateTransaction_def transaction_call_timers createTransaction_def
        updateDebounce_def)
  have start: "runs (fire now tm x) =
          runs x @ [\<lparr>r_handle = hx, r_applyPatch = args (handles x hx), r_snapshot = None,
                     r_stage = Await_read, r_started = now\<rparr>]"
    if "t_cb tm = Later hx" "timestamp (handles x hx) = Some ts" "ts + 1000 \<le> now"
    for x :: state and tm hx ts
    using that by (simp add: fire_def later_def updateDebounce_def Let_def)
  from one rearmed same set_timer create start show ?thesis
    by blast
qed

theorem one_debounce_timer_witness:
  "transactions (exec init requested) ''1+a.css'' = Some 0
   \<and> timeout (handles (exec init requested) 0) = Some 0
   \<and> length (debounce_timers (exec init requested) 0) = 1
   \<and> step (exec init requested) (400, Request 1 ''a.css'' 6) =
       upd_handle 0 (\<lambda>t. t\<lparr>args := Some 6, timestamp := Some 400\<rparr>) (exec init requested)
   \<and> timers (step (exec init requested) (400, Request 1 ''a.css'' 6)) = timers (exec init requested)
   \<and> transactions (exec init reading) ''1+a.css'' = Some 0
   \<and> timeout (handles (exec init reading) 0) = None
   \<and> timers (exec init reading) = []
   \<and> timers (step (exec init reading) (1100, Request 1 ''a.css'' 6)) =
       [\<lparr>t_id = 1, t_due = 2100, t_cb = Later 0\<rparr>]"
proof -
  have a: "transactions (exec init requested) (getKey 1 ''a.css'') = Some 0"
    "timeout (handles (exec init requested) 0) = Some 0"
    "length (debounce_timers (exec init requested) 0) = 1"
    by (simp_all add: scenario_defs debounce_timers_def model_defs)
  have b: "transactions (exec init reading) (getKey 1 ''a.css'') = Some 0"
    "timeout (handles (exec init reading) 0) = None"
    "timers (exec init reading) = []"
    "next_timer (exec init reading) = 1"
    by (simp_all add: scenario_defs model_defs)
  note t1 = one_debounce_timer [of requested 0 1 "''a.css''" 0 400 6]
  note t2 = one_debounce_timer [of reading 0 1 "''a.css''" 0 1100 6]
  from t1 [THEN conjunct2, THEN conjunct1] a
  have c: "step (exec init requested) (400, Request 1 ''a.css'' 6) =
       upd_handle 0 (\<lambda>t. t\<lparr>args := Some 6, timestamp := Some 400\<rparr>) (exec init requested)"
    by simp
  from t2 [THEN conjunct2, THEN conjunct2, THEN conjunct2, THEN conjunct2, THEN conjunct1] b
  have d: "timers (step (exec init reading) (1100, Request 1 ''a.css'' 6)) =
       [\<lparr>t_id = 1, t_due = 2100, t_cb = Later 0\<rparr>]"
    by (simp del: step.simps)
  from a b c d show ?thesis by (simp add: demo_key del: step.simps)
qed

text \<open>
  C1, as the spec states it, fails: in the scenario \<open>overlapping\<close> two runs of the same
  handle wait for their \<^verbatim>\<open>applyPatch\<close> at the same time.
\<close>

theorem overlapping_runs:
  "\<not> in_flight (exec init overlapping) 1 ''a.css'' \<le> 1
   \<and> map r_stage (runs (exec init overlapping)) = [Await_race, Await_race]
   \<and> map r_handle (runs (exec init overlapping)) = [0, 0]
   \<and> map r_started (runs (exec init overlapping)) = [1000, 2100]"
  by (simp add: in_flight_def scenario_defs model_defs)

section \<open>The restart\<close>

lemma keeps_refl [simp]: "keeps now s s"
  by (simp add: keeps_def)

lemma map_field_update:
  assumes "\<And>x. g (f x) = g x"
  shows "map g (xs[r := f (xs ! r)]) = map g xs"
proof (cases "r < length xs")
  case True
  then have "(map g xs)[r := g (xs ! r)] = (map g xs)[r := map g xs ! r]" by simp
  then show ?thesis using assms by (simp add: map_update del: nth_map)
next
  case False
  then show ?thesis by (simp add: list_update_beyond)
qed

lemma keeps_frame [simp]:
  "keeps now s0 (emit r e s) = keeps now s0 s"
  "keeps now s0 (dispatch r a s) = keeps now s0 s"
  "keeps now s0 (rejectOnTimeout r d now' s) = keeps now s0 s"
  by (simp_all add: keeps_def)

lemma keeps_upd_run:
  assumes "\<And>x. r_handle (f x) = r_handle x" "\<And>x. r_started (f x) = r_started x"
  shows "keeps now s0 (upd_run r f s) = keeps now s0 s"
  using assms by (simp add: keeps_def map_field_update)

lemma keeps_transaction_call:
  assumes "keeps now s0 s"
  shows "keeps now s0 (transaction_call now h a s)"
  using assms by (auto simp add: keeps_def transaction_call_handles)

lemma keeps_delete:
  "keeps now s0 (s\<lparr>transactions := m\<rparr>) = keeps now s0 s"
  by (simp add: keeps_def)

lemma keeps_on_complete:
  assumes "keeps now s0 s" "r < length (runs s)"
  shows "keeps now s0 (snd (on_complete now r u s))"
proof (cases "pending_patches s r")
  case None
  then show ?thesis
    using assms on_complete_done [of r s now u]
    by (simp add: run_defs keeps_delete keeps_upd_run)
next
  case (Some p)
  then show ?thesis
    using assms on_complete_restart [of r s p now u]
    by (simp add: run_defs keeps_transaction_call keeps_upd_run)
qed

lemma keeps_resume_write:
  assumes "keeps now s0 s" "r < length (runs s)"
  shows "keeps now s0 (snd (resume_write now r p s))"
proof (cases p)
  case Pending
  with assms show ?thesis by simp
next
  case (Fulfilled v)
  with assms show ?thesis by (simp add: resume_write_fulfilled keeps_on_complete)
next
  case (Rejected e)
  with assms show ?thesis
    by (cases e) (simp_all add: resume_rejected resume_write_nullish keeps_on_complete keeps_upd_run)
qed

lemma keeps_resume_race:
  assumes "keeps now s0 s" "r < length (runs s)"
  shows "keeps now s0 (snd (resume_race now r p s))"
proof (cases p)
  case Pending
  with assms show ?thesis by simp
next
  case (Rejected e)
  with assms show ?thesis by (simp add: resume_race_rejected keeps_resume_write)
next
  case (Fulfilled resp)
  show ?thesis
  proof (cases "pending_patches s r")
    case None
    then show ?thesis using assms unfolding Fulfilled
      by (simp add: resume_race_destroyed run_defs keeps_on_complete)
  next
    case (Some cur)
    show ?thesis
    proof (cases "r_snapshot (runs s ! r) = Some cur")
      case True
      then show ?thesis using assms Some unfolding Fulfilled
        by (simp add: resume_race_commit run_defs keeps_upd_run)
    next
      case False
      then show ?thesis using assms Some unfolding Fulfilled
        by (simp add: resume_race_stale run_defs keeps_on_complete)
    qed
  qed
qed

lemma keeps_resume_read:
  assumes "keeps now s0 s" "r < length (runs s)"
  shows "keeps now s0 (snd (resume_read now r p s))"
proof (cases p)
  case Pending
  with assms show ?thesis by simp
next
  case (Rejected e)
  with assms show ?thesis by (simp add: resume_read_rejected keeps_resume_write)
next
  case (Fulfilled c)
  show ?thesis
  proof (cases "pending_patches s r")
    case None
    then show ?thesis using assms unfolding Fulfilled
      by (simp add: resume_read_no_patches run_defs keeps_on_complete keeps_upd_run)
  next
    case (Some sn)
    show ?thesis
    proof (cases "r_applyPatch (runs s ! r)")
      case None
      then show ?thesis using assms Some unfolding Fulfilled
        by (simp add: resume_read_not_callable run_defs keeps_on_complete keeps_upd_run)
    next
      case (Some f)
      then show ?thesis using assms \<open>pending_patches s r = Some sn\<close> unfolding Fulfilled
        by (simp add: resume_read_apply run_defs keeps_upd_run)
    qed
  qed
qed

lemma debounced_since_keeps:
  assumes "debounced_since t0 h n lb s" "lb \<le> t" "keeps t s s'"
  shows "debounced_since t0 h n t s'"
proof -
  from assms(3) have nh: "next_handle s' = next_handle s"
    and rh: "map r_handle (runs s') = map r_handle (runs s)"
    and rs: "map r_started (runs s') = map r_started (runs s)"
    and ts: "timestamp (handles s' h) = timestamp (handles s h) \<or> timestamp (handles s' h) = Some t"
    unfolding keeps_def by blast+
  from rh have len: "length (runs s') = length (runs s)" by (metis length_map)
  have fields: "r_handle (runs s' ! i) = r_handle (runs s ! i)"
    "r_started (runs s' ! i) = r_started (runs s ! i)" if "i < length (runs s)" for i
    using that len rh rs by (metis nth_map)+
  from assms(1) obtain ts0 where old: "timestamp (handles s h) = Some ts0" "t0 \<le> ts0" "ts0 \<le> lb"
    and lt: "h < next_handle s"
    and runs_ok: "\<forall>i. n \<le> i \<and> i < length (runs s) \<and> r_handle (runs s ! i) = h \<longrightarrow>
            t0 + updateDebounce \<le> r_started (runs s ! i)"
    unfolding debounced_since_def by blast
  have "\<exists>ts. timestamp (handles s' h) = Some ts \<and> t0 \<le> ts \<and> ts \<le> t"
    using ts old assms(2) by auto
  moreover have "\<forall>i. n \<le> i \<and> i < length (runs s') \<and> r_handle (runs s' ! i) = h \<longrightarrow>
            t0 + updateDebounce \<le> r_started (runs s' ! i)"
    using runs_ok len fields by auto
  ultimately show ?thesis using lt nh unfolding debounced_since_def by simp
qed

lemma debounced_since_request:
  assumes "debounced_since t0 h n lb s" "lb \<le> t"
  shows "debounced_since t0 h n t (requestUpdateTransaction t tab url f s)"
proof (cases "transactions s (getKey tab url)")
  case None
  then show ?thesis using assms
    by (auto simp add: debounced_since_def requestUpdateTransaction_def createTransaction_def
        transaction_call_handles)
next
  case (Some h')
  then show ?thesis using assms
    by (auto simp add: debounced_since_def requestUpdateTransaction_def transaction_call_handles)
qed

lemma debounced_since_later:
  assumes "debounced_since t0 h n lb s" "lb \<le> t"
  shows "debounced_since t0 h n t (later func updateDebounce False t h' (s\<lparr>timers := tms\<rparr>))"
  using assms
  by (auto simp add: debounced_since_def later_def Let_def split_def nth_append updateDebounce_def
      split: option.splits if_splits)

lemma debounced_since_timers:
  "debounced_since t0 h n lb (s\<lparr>timers := tms\<rparr>) = debounced_since t0 h n lb s"
  by (simp add: debounced_since_def)

lemma debounced_since_step:
  assumes "debounced_since t0 h n lb s" "lb \<le> t"
  shows "debounced_since t0 h n t (step s (t, ev))"
proof (cases ev)
  case (Request tab url f)
  with assms show ?thesis by (simp add: debounced_since_request)
next
  case (Fire tid)
  show ?thesis
  proof (cases "find (\<lambda>tm. t_id tm = tid) (timers s)")
    case None
    with Fire debounced_since_keeps [OF assms keeps_refl] show ?thesis by simp
  next
    case (Some tm)
    show ?thesis
    proof (cases "t_due tm \<le> t")
      case False
      with Fire Some debounced_since_keeps [OF assms keeps_refl] show ?thesis by simp
    next
      case True
      let ?s1 = "s\<lparr>timers := remove1 tm (timers s)\<rparr>"
      have d1: "debounced_since t0 h n lb ?s1" using assms(1) by (simp add: debounced_since_timers)
      show ?thesis
      proof (cases "t_cb tm")
        case (Later h')
        from debounced_since_later [OF assms, of h' "remove1 tm (timers s)"] show ?thesis
          using Fire Some True Later by (simp add: fire_def)
      next
        case (Reject_on_timeout r)
        show ?thesis
        proof (cases "waiting s r Await_race")
          case False
          with debounced_since_keeps [OF d1 assms(2) keeps_refl] Fire Some True Reject_on_timeout
          show ?thesis by (auto simp add: fire_def waiting_def Let_def)
        next
          case w: True
          then have "r < length (runs ?s1)" by (simp add: waiting_def)
          from keeps_resume_race [OF keeps_refl this, of t "Rejected (Object timeout_error)"]
          have "keeps t ?s1 (snd (resume_race t r (Rejected (Object timeout_error)) ?s1))" .
          from debounced_since_keeps [OF d1 assms(2) this] show ?thesis
            using Fire Some True Reject_on_timeout w by (simp add: fire_def waiting_def Let_def)
        qed
      qed
    qed
  qed
next
  case (Read_settled r p)
  show ?thesis
  proof (cases "waiting s r Await_read")
    case False
    with Read_settled debounced_since_keeps [OF assms keeps_refl] show ?thesis by simp
  next
    case True
    then have "r < length (runs s)" by (simp add: waiting_def)
    from debounced_since_keeps [OF assms keeps_resume_read [OF keeps_refl this, of t "settled p"]]
    show ?thesis using True Read_settled by simp
  qed
next
  case (Apply_settled r p)
  show ?thesis
  proof (cases "waiting s r Await_race")
    case False
    with Apply_settled debounced_since_keeps [OF assms keeps_refl] show ?thesis by simp
  next
    case True
    then have "r < length (runs s)" by (simp add: waiting_def)
    from debounced_since_keeps [OF assms keeps_resume_race [OF keeps_refl this, of t "settled p"]]
    show ?thesis using True Apply_settled by simp
  qed
next
  case (Write_settled r p)
  show ?thesis
  proof (cases "waiting s r Await_write")
    case False
    with Write_settled debounced_since_keeps [OF assms keeps_refl] show ?thesis by simp
  next
    case True
    then have "r < length (runs s)" by (simp add: waiting_def)
    from debounced_since_keeps [OF assms keeps_resume_write [OF keeps_refl this, of t "settled p"]]
    show ?thesis using True Write_settled by simp
  qed
next
  case (Store_changed tab se)
  have "keeps t s (s\<lparr>store := (store s)(tab := se)\<rparr>)" by (simp add: keeps_def)
  from debounced_since_keeps [OF assms this] show ?thesis using Store_changed by simp
qed

lemma debounced_since_exec:
  assumes "debounced_since t0 h n lb s" "sorted (map fst es)" "\<forall>t\<in>set (map fst es). lb \<le> t"
  shows "\<exists>lb'. debounced_since t0 h n lb' (exec s es)"
  using assms
proof (induction es arbitrary: s lb)
  case Nil
  then show ?case by auto
next
  case (Cons e es)
  obtain t ev where e: "e = (t, ev)" by (cases e)
  from Cons.prems e have le: "lb \<le> t" and srt: "sorted (map fst es)"
    and after: "\<forall>u\<in>set (map fst es). t \<le> u" by auto
  from debounced_since_step [OF Cons.prems(1) le, of ev]
  have "debounced_since t0 h n t (step s e)" by (simp add: e del: step.simps)
  from Cons.IH [OF this srt after] show ?case by simp
qed

text \<open>
  C2, as the code has it. When the recheck finds patches pending it calls the debounced
  handle of the run again, with the \<^verbatim>\<open>applyPatch\<close> of the run. The call starts no run:
  it stores the argument and the time and leaves the handle with its timer set. Whatever
  happens afterwards (at times that do not decrease), every later run of that handle
  starts at least a quiet period (1000) after the restart.
\<close>

theorem restart_is_debounced:
  fixes s :: state and r :: nat and now :: int
  assumes "r < length (runs s)" and "r_handle (runs s ! r) < next_handle s"
    and "pending_patches s r = Some p"
  defines "s' \<equiv> snd (on_complete now r () s)" and "h \<equiv> r_handle (runs s ! r)"
  shows "s' = transaction_call now h (r_applyPatch (runs s ! r))
               (emit r (Console_info ''Pending patches, restart transaction for'')
                  (emit r Console_groupEnd
                     (upd_run r (\<lambda>x. x\<lparr>r_snapshot := None, r_stage := Settled\<rparr>) s)))
     \<and> args (handles s' h) = r_applyPatch (runs s ! r)
     \<and> timestamp (handles s' h) = Some now
     \<and> timeout (handles s' h) \<noteq> None
     \<and> length (runs s') = length (runs s)
     \<and> (\<forall>es. sorted (map fst es) \<and> (\<forall>t\<in>set (map fst es). now \<le> t) \<longrightarrow>
          (\<forall>i. length (runs s) \<le> i \<and> i < length (runs (exec s' es))
                \<and> r_handle (runs (exec s' es) ! i) = h \<longrightarrow>
             now + 1000 \<le> r_started (runs (exec s' es) ! i)))"
proof -
  have eq: "s' = transaction_call now h (r_applyPatch (runs s ! r))
               (emit r (Console_info ''Pending patches, restart transaction for'')
                  (emit r Console_groupEnd
                     (upd_run r (\<lambda>x. x\<lparr>r_snapshot := None, r_stage := Settled\<rparr>) s)))"
    using assms(1,3) on_complete_restart [of r s p now "()"] by (simp add: s'_def h_def run_defs)
  note sum = on_complete_summary [OF assms(1), of now "()"]
  have p: "pending_patches s r \<noteq> None" using assms(3) by simp
  have fields: "args (handles s' h) = r_applyPatch (runs s ! r)" "timestamp (handles s' h) = Some now"
    "timeout (handles s' h) \<noteq> None"
    using sum(4) [OF p] by (simp_all add: s'_def h_def)
  have len: "length (runs s') = length (runs s)" by (simp add: s'_def)
  have "next_handle s' = next_handle s" by (simp add: s'_def)
  with assms(2) fields(2) len have inv: "debounced_since now h (length (runs s)) now s'"
    by (simp add: debounced_since_def h_def)
  have later_runs: "\<forall>i. length (runs s) \<le> i \<and> i < length (runs (exec s' es))
                \<and> r_handle (runs (exec s' es) ! i) = h \<longrightarrow>
             now + 1000 \<le> r_started (runs (exec s' es) ! i)"
    if "sorted (map fst es)" "\<forall>t\<in>set (map fst es). now \<le> t" for es
  proof -
    from debounced_since_exec [OF inv that] obtain lb'
      where "debounced_since now h (length (runs s)) lb' (exec s' es)" by blast
    then show ?thesis by (simp add: debounced_since_def updateDebounce_def)
  qed
  from eq fields len later_runs show ?thesis by blast
qed

theorem restart_is_debounced_witness:
  "pending_patches rechecking 0 = Some 8
   \<and> step (exec init edited) (1300, Apply_settled 0 (Inr \<lparr>content = ''x''\<rparr>)) =
       snd (on_complete 1300 0 () rechecking)
   \<and> args (handles (snd (on_complete 1300 0 () rechecking)) 0) = Some 5
   \<and> timestamp (handles (snd (on_complete 1300 0 () rechecking)) 0) = Some 1300
   \<and> length (runs (snd (on_complete 1300 0 () rechecking))) = 1"
proof -
  have a: "0 < length (runs rechecking)" "r_handle (runs rechecking ! 0) < next_handle rechecking"
    "pending_patches rechecking 0 = Some 8" "r_handle (runs rechecking ! 0) = 0"
    "r_applyPatch (runs rechecking ! 0) = Some 5" "length (runs rechecking) = 1"
    by (simp_all add: scenario_defs run_defs model_defs)
  have st: "step (exec init edited) (1300, Apply_settled 0 (Inr \<lparr>content = ''x''\<rparr>)) =
       snd (on_complete 1300 0 () rechecking)"
    using edited_state
    by (simp add: rechecking_def resume_race_stale waiting_def run_defs)
  note t = restart_is_debounced [OF a(1,2,3), of 1300]
  have ar: "args (handles (snd (on_complete 1300 0 () rechecking)) 0) = Some 5"
    using t [THEN conjunct2, THEN conjunct1] a(4,5) by simp
  have ts: "timestamp (handles (snd (on_complete 1300 0 () rechecking)) 0) = Some 1300"
    using t [THEN conjunct2, THEN conjunct2, THEN conjunct1] a(4) by simp
  have len: "length (runs (snd (on_complete 1300 0 () rechecking))) = 1"
    using t [THEN conjunct2, THEN conjunct2, THEN conjunct2, THEN conjunct2, THEN conjunct1] a(6)
    by simp
  from a(3) st ar ts len show ?thesis
    by blast
qed

text \<open>
  C2, as the spec states it, fails: the restart at 1300 starts no run; the timer it sets
  is due at 2300, and the next run starts then.
\<close>

theorem restart_waits:
  "map r_stage (runs (exec init restarting)) = [Settled]
   \<and> map t_due (debounce_timers (exec init restarting) 0) = [2300]
   \<and> runs (step (exec init restarting) (1300, Fire 2)) = runs (exec init restarting)
   \<and> map r_started (runs (step (exec init restarting) (2300, Fire 2))) = [1000, 2300]"
  by (simp add: scenario_defs debounce_timers_def model_defs)

section \<open>Debounce coalescing\<close>

















end
